theory Spec2Isabelle
  imports Main "HOL-Library.Word"
begin

unbundle bit_operations_syntax

section \<open>Bytes, C strings and the character classes of ctype.h\<close>

text \<open>
  A C \<open>char\<close> is an 8-bit word.  A buffer is the list of its bytes, and reading past
  the end of the list gives NUL: the byte just past the end is the string terminator
  (the decoder never reads further, and never writes past its terminator).
\<close>

type_synonym byte = "8 word"

definition bytes :: "string \<Rightarrow> byte list" where
  "bytes s = map of_char s"

definition rd :: "byte list \<Rightarrow> nat \<Rightarrow> byte" where
  "rd buf i = (if i < length buf then buf ! i else 0)"

text \<open>The string that starts at a pointer: the bytes before the first NUL.\<close>

definition cstr :: "byte list \<Rightarrow> byte list" where
  "cstr buf = takeWhile (\<lambda>c. c \<noteq> 0) buf"

text \<open>\<open>isspace\<close>, \<open>isascii\<close> and \<open>isprint\<close> in the C locale.\<close>

definition ISSPACE :: "byte \<Rightarrow> bool" where
  "ISSPACE c = (c = 32 \<or> (9 \<le> c \<and> c \<le> 13))"

definition isascii :: "byte \<Rightarrow> bool" where
  "isascii c = (c AND 0x80 = 0)"

definition isprint :: "byte \<Rightarrow> bool" where
  "isprint c = (32 \<le> c \<and> c \<le> 126)"

definition LDIF_LINE_WIDTH :: nat where
  "LDIF_LINE_WIDTH = 76"

definition CONTINUED_LINE_MARKER :: byte where
  "CONTINUED_LINE_MARKER = 1"

definition RIGHT2 :: byte where
  "RIGHT2 = 0x03"

definition RIGHT4 :: byte where
  "RIGHT4 = 0x0f"

definition nib2b64 :: "byte list" where
  "nib2b64 = bytes ''ABCDEFGHIJKLMNOPQRSTUVWXYZabcdefghijklmnopqrstuvwxyz0123456789+/''"

definition b642nib :: "byte list" where
  "b642nib =
   [0xff, 0xff, 0xff, 0xff, 0xff, 0xff, 0xff, 0xff,
    0xff, 0xff, 0xff, 0xff, 0xff, 0xff, 0xff, 0xff,
    0xff, 0xff, 0xff, 0xff, 0xff, 0xff, 0xff, 0xff,
    0xff, 0xff, 0xff, 0xff, 0xff, 0xff, 0xff, 0xff,
    0xff, 0xff, 0xff, 0xff, 0xff, 0xff, 0xff, 0xff,
    0xff, 0xff, 0xff, 0x3e, 0xff, 0xff, 0xff, 0x3f,
    0x34, 0x35, 0x36, 0x37, 0x38, 0x39, 0x3a, 0x3b,
    0x3c, 0x3d, 0xff, 0xff, 0xff, 0xff, 0xff, 0xff,
    0xff, 0x00, 0x01, 0x02, 0x03, 0x04, 0x05, 0x06,
    0x07, 0x08, 0x09, 0x0a, 0x0b, 0x0c, 0x0d, 0x0e,
    0x0f, 0x10, 0x11, 0x12, 0x13, 0x14, 0x15, 0x16,
    0x17, 0x18, 0x19, 0xff, 0xff, 0xff, 0xff, 0xff,
    0xff, 0x1a, 0x1b, 0x1c, 0x1d, 0x1e, 0x1f, 0x20,
    0x21, 0x22, 0x23, 0x24, 0x25, 0x26, 0x27, 0x28,
    0x29, 0x2a, 0x2b, 0x2c, 0x2d, 0x2e, 0x2f, 0x30,
    0x31, 0x32, 0x33, 0xff, 0xff, 0xff, 0xff, 0xff]"

section \<open>The decoder: \<open>str_parse_line\<close>\<close>

text \<open>
  The three \<open>return (-1)\<close> of \<open>str_parse_line\<close>, named after their debug messages
  ("missing ':'", "missing value", "invalid base 64 encoding char").
\<close>

datatype parse_error = MissingSeparator | MissingValue | InvalidBase64Char

text \<open>\<open>while(ISSPACE(*line)) line++;\<close>\<close>

function skip_space :: "byte list \<Rightarrow> nat \<Rightarrow> nat" where
  "skip_space buf i = (if ISSPACE (rd buf i) then skip_space buf (Suc i) else i)"
  by pat_completeness auto
termination
  by (relation "measure (\<lambda>(buf, i). length buf - i)")
     (auto simp: rd_def ISSPACE_def split: if_splits)

declare skip_space.simps [simp del]

text \<open>\<open>for(s = line; *s && *s != ':'; s++);\<close>\<close>

function find_colon :: "byte list \<Rightarrow> nat \<Rightarrow> nat" where
  "find_colon buf s = (if rd buf s \<noteq> 0 \<and> rd buf s \<noteq> 58 then find_colon buf (Suc s) else s)"
  by pat_completeness auto
termination
  by (relation "measure (\<lambda>(buf, s). length buf - s)")
     (auto simp: rd_def split: if_splits)

declare find_colon.simps [simp del]

text \<open>\<open>for(p = s - 1; p > line && ISSPACE(*p); p--) *p = '\0';\<close>\<close>

function trim_type :: "byte list \<Rightarrow> nat \<Rightarrow> nat \<Rightarrow> byte list" where
  "trim_type buf line p =
     (if p > line \<and> ISSPACE (rd buf p) then trim_type (buf[p := 0]) line (p - 1) else buf)"
  by pat_completeness auto
termination
  by (relation "measure (\<lambda>(buf, line, p). p)") auto

declare trim_type.simps [simp del]

text \<open>
  \<open>for(p = s, d = s; *p; p++) if(*p != CONTINUED_LINE_MARKER) *d++ = *p;  *d = '\0';\<close>
  The result is the buffer and \<open>d\<close>.
\<close>

function strip_markers :: "byte list \<Rightarrow> nat \<Rightarrow> nat \<Rightarrow> byte list \<times> nat" where
  "strip_markers buf p d =
     (if rd buf p \<noteq> 0 then
        (if rd buf p \<noteq> CONTINUED_LINE_MARKER
         then strip_markers (buf[d := rd buf p]) (Suc p) (Suc d)
         else strip_markers buf (Suc p) d)
      else (buf[d := 0], d))"
  by pat_completeness auto
termination
  by (relation "measure (\<lambda>(buf, p, d). length buf - p)")
     (auto simp: rd_def split: if_splits)

declare strip_markers.simps [simp del]

text \<open>\<open>strchr(s, '\0')\<close>\<close>

function strend :: "byte list \<Rightarrow> nat \<Rightarrow> nat" where
  "strend buf i = (if rd buf i \<noteq> 0 then strend buf (Suc i) else i)"
  by pat_completeness auto
termination
  by (relation "measure (\<lambda>(buf, i). length buf - i)")
     (auto simp: rd_def split: if_splits)

declare strend.simps [simp del]

text \<open>
  The test of the inner \<open>for(i = 0; i < 3; i++)\<close> loop on one character:
  \<open>p[i] != '=' && (p[i] & 0x80 || b642nib[p[i] & 0x7f] > 0x3f)\<close>.
\<close>

definition bad_b64 :: "byte \<Rightarrow> bool" where
  "bad_b64 c = (c \<noteq> 61 \<and> (c AND 0x80 \<noteq> 0 \<or> b642nib ! unat (c AND 0x7f) > 0x3f))"

text \<open>\<open>nib = b642nib[c & 0x7f]\<close>\<close>

definition nib_of :: "byte \<Rightarrow> byte" where
  "nib_of c = b642nib ! unat (c AND 0x7f)"

text \<open>
  The base64 loop, in place: \<open>p\<close> reads four characters where \<open>byte\<close> writes three.
  \<open>nib\<close> is a (signed) \<open>char\<close>: \<open>nib >> k\<close> is the arithmetic shift of its
  promotion, and every store keeps the low eight bits.
  The result is the buffer and \<open>*vlen\<close>.
\<close>

function b64_loop :: "byte list \<Rightarrow> nat \<Rightarrow> nat \<Rightarrow> nat \<Rightarrow> int \<Rightarrow> parse_error + (byte list \<times> int)" where
  "b64_loop buf stop p byte vlen =
     (if p < stop then
        (if bad_b64 (rd buf p) \<or> bad_b64 (rd buf (p + 1)) \<or> bad_b64 (rd buf (p + 2))
         then Inl InvalidBase64Char
         else
           let nib0 = nib_of (rd buf p);
               buf1 = buf[byte := push_bit 2 nib0];
               nib1 = nib_of (rd buf1 (p + 1));
               buf2 = buf1[byte := rd buf1 byte OR signed_drop_bit 4 nib1];
               buf3 = buf2[byte + 1 := push_bit 4 (nib1 AND RIGHT4)]
           in if rd buf3 (p + 2) = 61 then Inr (buf3, vlen + 1)
              else
                let nib2 = nib_of (rd buf3 (p + 2));
                    buf4 = buf3[byte + 1 := rd buf3 (byte + 1) OR signed_drop_bit 2 nib2];
                    buf5 = buf4[byte + 2 := push_bit 6 (nib2 AND RIGHT2)]
                in if rd buf5 (p + 3) = 61 then Inr (buf5, vlen + 2)
                   else
                     let nib3 = nib_of (rd buf5 (p + 3));
                         buf6 = buf5[byte + 2 := rd buf5 (byte + 2) OR nib3]
                     in b64_loop buf6 stop (p + 4) (byte + 3) (vlen + 3))
      else Inr (buf, vlen))"
  by pat_completeness auto
termination
  by (relation "measure (\<lambda>(buf, stop, p, byte, vlen). stop - p)") auto

declare b64_loop.simps [simp del]

text \<open>
  \<open>str_parse_line\<close>.  On success the result is the string at \<open>*type\<close>, the
  \<open>*vlen\<close> bytes at \<open>*value\<close>, and \<open>*vlen\<close>.
\<close>

definition str_parse_line :: "byte list \<Rightarrow> parse_error + (byte list \<times> byte list \<times> int)" where
  "str_parse_line buf0 =
     (let line = skip_space buf0 0;
          s = find_colon buf0 line
      in if rd buf0 s = 0 then Inl MissingSeparator
         else
           let buf1 = trim_type buf0 line (s - 1);
               buf2 = buf1[s := 0];
               s1 = Suc s;
               b64 = (rd buf2 s1 = 58);
               s2 = (if b64 then Suc s1 else s1);
               s3 = skip_space buf2 s2
           in if rd buf2 s3 = 0 then Inl MissingValue
              else
                let (buf3, d) = strip_markers buf2 s3 s3
                in if b64 then
                     (case b64_loop buf3 (strend buf3 s3) s3 s3 0 of
                        Inl e \<Rightarrow> Inl e
                      | Inr (buf4, vlen) \<Rightarrow>
                          let buf5 = buf4[s3 + nat vlen := 0]
                          in Inr (cstr (drop line buf5), take (nat vlen) (drop s3 buf5), vlen))
                   else
                     Inr (cstr (drop line buf3), take (d - s3) (drop s3 buf3), int (d - s3)))"

section \<open>The encoder: \<open>put_type_and_value\<close> and \<open>ldif_type_and_value\<close>\<close>

text \<open>
  The output buffer: every byte written so far from the start of the buffer, and the
  offset of \<open>*out\<close> in it.  \<open>*(*out)++ = c\<close> stores at the offset and advances it;
  \<open>*out = save\<close> moves the offset back without erasing what lies behind it, so the
  length of the first component is the furthest the encoder ever wrote.
\<close>

type_synonym outbuf = "byte list \<times> nat"

definition putc :: "byte \<Rightarrow> outbuf \<Rightarrow> outbuf" where
  "putc c ob =
     (case ob of (mem, pos) \<Rightarrow>
        (if pos < length mem then mem[pos := c] else mem @ [c], Suc pos))"

text \<open>The text between the start of the buffer and \<open>*out\<close>.\<close>

definition outstr :: "outbuf \<Rightarrow> byte list" where
  "outstr ob = take (snd ob) (fst ob)"

text \<open>
  The body shared by the three output loops, with the loop's \<open>len++\<close>:
  \<open>if(len > LDIF_LINE_WIDTH) { *(*out)++ = '\n'; *(*out)++ = ' '; len = 1; }  *(*out)++ = c;\<close>
\<close>

definition fold_put :: "byte \<Rightarrow> outbuf \<times> nat \<Rightarrow> outbuf \<times> nat" where
  "fold_put c st =
     (case st of (ob, len) \<Rightarrow>
        if len > LDIF_LINE_WIDTH then (putc c (putc 32 (putc 10 ob)), 1 + 1)
        else (putc c ob, len + 1))"

text \<open>\<open>for(p = t; *p; p++, len++) *(*out)++ = *p;\<close>\<close>

fun put_type :: "byte list \<Rightarrow> outbuf \<times> nat \<Rightarrow> outbuf \<times> nat" where
  "put_type [] st = st"
| "put_type (c # cs) (ob, len) = (if c = 0 then (ob, len) else put_type cs (putc c ob, len + 1))"

text \<open>
  The plain loop over the value bytes; the first component of the result is \<open>b64\<close>
  (the loop met a byte that is not printable ASCII, and stopped there).
\<close>

fun plain_loop :: "byte list \<Rightarrow> outbuf \<times> nat \<Rightarrow> bool \<times> outbuf \<times> nat" where
  "plain_loop [] st = (False, st)"
| "plain_loop (b # bs) st =
     (if \<not> isascii b \<or> \<not> isprint b then (True, st) else plain_loop bs (fold_put b st))"

text \<open>\<open>bits = (byte[0] & 0xff) << 16;  bits |= (byte[1] & 0xff) << 8;  bits |= (byte[2] & 0xff);\<close>\<close>

definition bits_of :: "byte \<Rightarrow> byte \<Rightarrow> byte \<Rightarrow> 64 word" where
  "bits_of b0 b1 b2 =
     push_bit 16 (ucast b0 AND 0xff) OR push_bit 8 (ucast b1 AND 0xff) OR (ucast b2 AND 0xff)"

text \<open>
  \<open>for(i = 0; i < 4; i++, len++, bits <<= 6)\<close>, counted down: each round folds if
  needed and writes \<open>nib2b64[(bits & 0xfc0000L) >> 18]\<close>.
\<close>

fun put_digits :: "nat \<Rightarrow> 64 word \<Rightarrow> outbuf \<times> nat \<Rightarrow> outbuf \<times> nat" where
  "put_digits 0 bits st = st"
| "put_digits (Suc n) bits st =
     put_digits n (push_bit 6 bits)
       (fold_put (nib2b64 ! unat (drop_bit 18 (bits AND 0xfc0000))) st)"

text \<open>
  \<open>for(byte = val; byte < stop - 2; byte += 3)\<close>: whole groups of three bytes.  The
  result also holds the bytes left at \<open>byte\<close> (none, one or two).
\<close>

fun b64_groups :: "byte list \<Rightarrow> outbuf \<times> nat \<Rightarrow> byte list \<times> outbuf \<times> nat" where
  "b64_groups (b0 # b1 # b2 # rest) st = b64_groups rest (put_digits 4 (bits_of b0 b1 b2) st)"
| "b64_groups bs st = (bs, st)"

text \<open>\<open>for(; pad > 0; pad--) *(*out - pad) = '=';\<close>\<close>

fun put_pad :: "nat \<Rightarrow> outbuf \<Rightarrow> outbuf" where
  "put_pad 0 ob = ob"
| "put_pad (Suc n) (mem, pos) = put_pad n (mem[pos - Suc n := 61], pos)"

text \<open>The padding block \<open>if(byte < stop) { ... }\<close> on the bytes left over.\<close>

definition b64_tail :: "byte list \<Rightarrow> outbuf \<times> nat \<Rightarrow> outbuf \<times> nat" where
  "b64_tail rest st =
     (if rest \<noteq> [] then
        let buf = rest @ replicate (3 - length rest) 0;
            pad = 3 - length rest;
            (ob, len) = put_digits 4 (bits_of (buf ! 0) (buf ! 1) (buf ! 2)) st
        in (put_pad pad ob, len)
      else st)"

text \<open>
  The value is given as the pointer \<open>val\<close> and the signed count \<open>vlen\<close>.  The list
  \<open>val\<close> is the memory from that address on, read with \<open>rd\<close>; it may be longer or
  shorter than \<open>vlen\<close>.  Both loops of the
  encoder run while \<open>byte < stop\<close> with \<open>stop = val + vlen\<close>: they see the bytes
  \<open>val[0]\<close> to \<open>val[vlen - 1]\<close>, and none when \<open>vlen\<close> is zero or negative.
\<close>

definition value_bytes :: "byte list \<Rightarrow> int \<Rightarrow> byte list" where
  "value_bytes val vlen = map (rd val) [0..<nat vlen]"

text \<open>
  The test on the first byte, \<open>isascii(val[0]) && (ISSPACE(val[0]) || val[0] == ':')\<close>.
  It reads \<open>val[0]\<close> from the memory at \<open>val\<close> before \<open>vlen\<close> is looked at, also when
  \<open>vlen\<close> is zero or negative.
\<close>

definition first_byte_b64 :: "byte list \<Rightarrow> bool" where
  "first_byte_b64 val = (isascii (rd val 0) \<and> (ISSPACE (rd val 0) \<or> rd val 0 = 58))"

text \<open>
  \<open>put_type_and_value\<close>.  The result is the output buffer after the final newline.
\<close>

definition put_type_and_value :: "outbuf \<Rightarrow> byte list \<Rightarrow> byte list \<Rightarrow> int \<Rightarrow> outbuf" where
  "put_type_and_value out0 t val vlen =
     (let (out1, len1) = put_type t (out0, 0);
          out2 = putc 58 out1;
          len2 = len1 + 1;
          save = snd out2;
          savelen = len2;
          out3 = putc 32 out2;
          (b64, out4, len4) =
             (if first_byte_b64 val then (True, out3, len2)
              else plain_loop (value_bytes val vlen) (out3, len2));
          out9 =
            (if b64 then
               let out5 = (fst out4, save);
                   out6 = putc 58 out5;
                   out7 = putc 32 out6;
                   len7 = savelen + 2;
                   (rest, st8) = b64_groups (value_bytes val vlen) (out7, len7);
                   (out8, len8) = b64_tail rest st8
               in out8
             else out4)
      in putc 10 out9)"

text \<open>
  The flag \<open>b64\<close> when the encoder reaches \<open>if(b64)\<close>: which of the two
  representations it emits.
\<close>

definition is_b64 :: "byte list \<Rightarrow> int \<Rightarrow> bool" where
  "is_b64 val vlen =
     (first_byte_b64 val \<or> fst (plain_loop (value_bytes val vlen) (([], 0), 0)))"

text \<open>
  C \<open>int\<close> arithmetic on 32 bits: the result of each operation is reduced to the
  two's-complement range, and \<open>/\<close> truncates towards zero.
\<close>

definition s32 :: "int \<Rightarrow> int" where
  "s32 x = (x + 2 ^ 31) mod 2 ^ 32 - 2 ^ 31"

definition cdiv :: "int \<Rightarrow> int \<Rightarrow> int" where
  "cdiv a b = sgn a * sgn b * (\<bar>a\<bar> div \<bar>b\<bar>)"

definition LDIF_BASE64_LEN :: "int \<Rightarrow> int" where
  "LDIF_BASE64_LEN vlen = s32 (s32 (cdiv (s32 (vlen * 4)) 3) + 3)"

definition LDIF_SIZE_NEEDED :: "int \<Rightarrow> int \<Rightarrow> int" where
  "LDIF_SIZE_NEEDED tlen vlen =
     s32 (s32 (s32 (tlen + 4) + LDIF_BASE64_LEN vlen)
          + s32 (cdiv (s32 (s32 (LDIF_BASE64_LEN vlen + tlen) + 3)) (int LDIF_LINE_WIDTH) * 2))"

text \<open>
  The same formula over the unbounded integers, with the division of C: the size the
  macro means.
\<close>

definition size_needed_exact :: "int \<Rightarrow> int \<Rightarrow> int" where
  "size_needed_exact tlen vlen =
     tlen + 4 + (cdiv (vlen * 4) 3 + 3) + cdiv ((cdiv (vlen * 4) 3 + 3) + tlen + 3) 76 * 2"

text \<open>
  The computation does not overflow: the exact result of every operation of the macro
  lies in the range of \<open>int\<close>.
\<close>

definition in_int :: "int \<Rightarrow> bool" where
  "in_int x = (- (2 ^ 31) \<le> x \<and> x < 2 ^ 31)"

definition no_overflow :: "int \<Rightarrow> int \<Rightarrow> bool" where
  "no_overflow tlen vlen =
     (let b = cdiv (vlen * 4) 3 + 3
      in in_int (vlen * 4) \<and> in_int (cdiv (vlen * 4) 3) \<and> in_int b
       \<and> in_int (tlen + 4) \<and> in_int (tlen + 4 + b)
       \<and> in_int (b + tlen) \<and> in_int (b + tlen + 3)
       \<and> in_int (cdiv (b + tlen + 3) 76) \<and> in_int (cdiv (b + tlen + 3) 76 * 2)
       \<and> in_int (size_needed_exact tlen vlen))"

datatype encode_error = SizeOverflow | AllocFailed

text \<open>
  The sizing of \<open>ldif_type_and_value\<close>: \<open>t = LDIF_SIZE_NEEDED(tlen, vlen)\<close> converted
  to a 64-bit \<open>size_t\<close>, and \<open>if((bufsize = t + 1) <= t) return NULL;\<close>.
\<close>

definition ldif_bufsize :: "int \<Rightarrow> int \<Rightarrow> encode_error + int" where
  "ldif_bufsize tlen vlen =
     (let t = LDIF_SIZE_NEEDED tlen vlen mod 2 ^ 64;
          bufsize = (t + 1) mod 2 ^ 64
      in if bufsize \<le> t then Inl SizeOverflow else Inr bufsize)"

text \<open>
  \<open>ldif_type_and_value\<close>; \<open>malloc\<close> says which sizes the allocator grants.  The
  result is the buffer after \<open>*p = '\0'\<close>: the bytes written, the terminator included.
\<close>

definition ldif_type_and_value ::
  "(int \<Rightarrow> bool) \<Rightarrow> byte list \<Rightarrow> byte list \<Rightarrow> int \<Rightarrow> encode_error + byte list" where
  "ldif_type_and_value malloc type val vlen =
     (let tlen = s32 (int (length (cstr type)))
      in case ldif_bufsize tlen vlen of
           Inl e \<Rightarrow> Inl e
         | Inr bufsize \<Rightarrow>
             if \<not> malloc bufsize then Inl AllocFailed
             else let (mem, pos) = put_type_and_value ([], 0) type val vlen
                  in Inr (mem[pos := 0] @ (if pos < length mem then [] else [0])))"

text \<open>The fragment as a string: the text \<open>put_type_and_value\<close> leaves in a fresh buffer.\<close>

definition encode :: "byte list \<Rightarrow> byte list \<Rightarrow> int \<Rightarrow> byte list" where
  "encode t val vlen = outstr (put_type_and_value ([], 0) t val vlen)"

section \<open>The line reader and the vocabulary of the specification\<close>

text \<open>
  \<open>str_getline\<close>, the reader documented in \<open>ldif.c\<close>: it returns the next logical
  line of a buffer of newline-separated lines.  A newline followed by a white space
  character other than a newline continues the line; both characters become
  \<open>CONTINUED_LINE_MARKER\<close>.  Any other newline ends the line.  The result is the
  returned string, \<open>None\<close> for \<open>NULL\<close>.
\<close>

fun getline_scan :: "byte list \<Rightarrow> byte list" where
  "getline_scan [] = []"
| "getline_scan (c # cs) =
     (if c = 0 then []
      else if c = 10 then
        (case cs of
           [] \<Rightarrow> []
         | c' # cs' \<Rightarrow>
             if ISSPACE c' \<and> c' \<noteq> 10
             then CONTINUED_LINE_MARKER # CONTINUED_LINE_MARKER # getline_scan cs'
             else [])
      else c # getline_scan cs)"

definition str_getline :: "byte list \<Rightarrow> byte list option" where
  "str_getline buf = (if rd buf 0 = 10 \<or> rd buf 0 = 0 then None else Some (getline_scan buf))"

text \<open>The physical lines of a fragment: the text before each newline.\<close>

fun split_lines :: "byte list \<Rightarrow> byte list list" where
  "split_lines [] = [[]]"
| "split_lines (c # cs) =
     (if c = 10 then [] # split_lines cs
      else (case split_lines cs of [] \<Rightarrow> [[c]] | l # ls \<Rightarrow> (c # l) # ls))"

definition physical_lines :: "byte list \<Rightarrow> byte list list" where
  "physical_lines frag = butlast (split_lines frag)"

text \<open>
  A valid attribute name: not empty, no colon, no white space at either end, and (as a
  C string written on one line) no NUL and no newline.
\<close>

definition valid_type :: "byte list \<Rightarrow> bool" where
  "valid_type t =
     (t \<noteq> [] \<and> 0 \<notin> set t \<and> 58 \<notin> set t \<and> 10 \<notin> set t
      \<and> \<not> ISSPACE (hd t) \<and> \<not> ISSPACE (last t))"

text \<open>
  The base64 text of a value, before folding: four digits for three bytes, and a last
  group padded with \<open>=\<close>.  \<open>digit i bits\<close> is the digit the \<open>i\<close>-th round of the
  encoder's inner loop takes from \<open>bits\<close>.
\<close>

definition digit :: "nat \<Rightarrow> 64 word \<Rightarrow> byte" where
  "digit i bits = nib2b64 ! unat (drop_bit 18 (push_bit (6 * i) bits AND 0xfc0000))"

fun b64_text :: "byte list \<Rightarrow> byte list" where
  "b64_text (b0 # b1 # b2 # rest) =
     digit 0 (bits_of b0 b1 b2) # digit 1 (bits_of b0 b1 b2) # digit 2 (bits_of b0 b1 b2)
       # digit 3 (bits_of b0 b1 b2) # b64_text rest"
| "b64_text [b0, b1] = [digit 0 (bits_of b0 b1 0), digit 1 (bits_of b0 b1 0), digit 2 (bits_of b0 b1 0), 61]"
| "b64_text [b0] = [digit 0 (bits_of b0 0 0), digit 1 (bits_of b0 0 0), 61, 61]"
| "b64_text [] = []"

text \<open>
  Folding a text that starts in column counter \<open>len\<close>: a newline and a space go
  before every character that finds the counter above the width.  \<open>fold_col\<close> is the
  counter after \<open>n\<close> characters, and \<open>mark_text\<close> is the folded text as the line reader
  returns it, each fold replaced by two markers.
\<close>

fun fold_text :: "nat \<Rightarrow> byte list \<Rightarrow> byte list" where
  "fold_text len [] = []"
| "fold_text len (c # cs) =
     (if len > LDIF_LINE_WIDTH then 10 # 32 # c # fold_text 2 cs
      else c # fold_text (Suc len) cs)"

fun fold_col :: "nat \<Rightarrow> nat \<Rightarrow> nat" where
  "fold_col len 0 = len"
| "fold_col len (Suc n) = fold_col (if len > LDIF_LINE_WIDTH then 2 else Suc len) n"

fun mark_text :: "nat \<Rightarrow> byte list \<Rightarrow> byte list" where
  "mark_text len [] = []"
| "mark_text len (c # cs) =
     (if len > LDIF_LINE_WIDTH
      then CONTINUED_LINE_MARKER # CONTINUED_LINE_MARKER # c # mark_text 2 cs
      else c # mark_text (Suc len) cs)"

text \<open>Unfolding a physical text: every newline followed by a space is dropped.\<close>

fun strip_folds :: "byte list \<Rightarrow> byte list" where
  "strip_folds (a # b # cs) =
     (if a = 10 \<and> b = 32 then strip_folds cs else a # strip_folds (b # cs))"
| "strip_folds cs = cs"

text \<open>
  A character of the base64 alphabet, as the decoder sees it: it passes the validity
  test and is not the padding character.
\<close>

definition b64_char :: "byte \<Rightarrow> bool" where
  "b64_char c = (\<not> bad_b64 c \<and> c \<noteq> 61)"

text \<open>
  The three bytes the decoder stores for a group of four characters \<open>a b c d\<close>:
  \<open>byte[0]\<close>, \<open>byte[1]\<close> and \<open>byte[2]\<close> once the loop body has run.
\<close>

definition dec0 :: "byte \<Rightarrow> byte \<Rightarrow> byte" where
  "dec0 a b = push_bit 2 (nib_of a) OR signed_drop_bit 4 (nib_of b)"

definition dec1 :: "byte \<Rightarrow> byte \<Rightarrow> byte" where
  "dec1 b c = push_bit 4 (nib_of b AND RIGHT4) OR signed_drop_bit 2 (nib_of c)"

definition dec2 :: "byte \<Rightarrow> byte \<Rightarrow> byte" where
  "dec2 c d = push_bit 6 (nib_of c AND RIGHT2) OR nib_of d"

text \<open>The index into \<open>nib2b64\<close> that the \<open>i\<close>-th round of the encoder's inner loop uses.\<close>

definition nib_index :: "nat \<Rightarrow> 64 word \<Rightarrow> byte" where
  "nib_index i bits = ucast (drop_bit 18 (push_bit (6 * i) bits AND 0xfc0000))"

text \<open>What the two tables say about the \<open>n\<close>-th digit of the alphabet.\<close>

definition digit_ok :: "nat \<Rightarrow> bool" where
  "digit_ok n =
     (let c = nib2b64 ! n
      in nib_of c = of_nat n \<and> \<not> bad_b64 c \<and> c \<noteq> 61 \<and> c \<noteq> 10 \<and> c \<noteq> 32 \<and> c \<noteq> 1 \<and> c \<noteq> 0
         \<and> \<not> ISSPACE c \<and> c \<noteq> 58)"

text \<open>
  The digits of a value before the padding is stored over them, and the number of
  padding characters: \<open>pad\<close> after the second inner loop of the padding block.
\<close>

fun b64_raw :: "byte list \<Rightarrow> byte list" where
  "b64_raw (b0 # b1 # b2 # rest) =
     digit 0 (bits_of b0 b1 b2) # digit 1 (bits_of b0 b1 b2) # digit 2 (bits_of b0 b1 b2)
       # digit 3 (bits_of b0 b1 b2) # b64_raw rest"
| "b64_raw [b0, b1] =
     [digit 0 (bits_of b0 b1 0), digit 1 (bits_of b0 b1 0), digit 2 (bits_of b0 b1 0),
      digit 3 (bits_of b0 b1 0)]"
| "b64_raw [b0] =
     [digit 0 (bits_of b0 0 0), digit 1 (bits_of b0 0 0), digit 2 (bits_of b0 0 0),
      digit 3 (bits_of b0 0 0)]"
| "b64_raw [] = []"

definition pad_of :: "byte list \<Rightarrow> nat" where
  "pad_of val = (3 - length val mod 3) mod 3"

text \<open>The offset of \<open>*out\<close> lies inside what has been written.\<close>

definition wf_out :: "outbuf \<Rightarrow> bool" where
  "wf_out ob = (snd ob \<le> length (fst ob))"

text \<open>
  \<open>writes ob xs ob'\<close>: from \<open>ob\<close> the encoder stored the text \<open>xs\<close> at \<open>*out\<close>, byte
  after byte, and reached \<open>ob'\<close>; the buffer grew only as far as \<open>*out\<close> went.
\<close>

definition writes :: "outbuf \<Rightarrow> byte list \<Rightarrow> outbuf \<Rightarrow> bool" where
  "writes ob xs ob' =
     (wf_out ob' \<and> outstr ob' = outstr ob @ xs
      \<and> length (fst ob') = max (length (fst ob)) (snd ob'))"

text \<open>A byte the plain loop copies: printable ASCII.\<close>

definition printable :: "byte \<Rightarrow> bool" where
  "printable b = (isascii b \<and> isprint b)"

text \<open>The value bytes the plain loop copies before the encoder turns to base64.\<close>

definition plain_attempt :: "byte list \<Rightarrow> int \<Rightarrow> byte list" where
  "plain_attempt val vlen =
     (if first_byte_b64 val then [] else takeWhile printable (value_bytes val vlen))"

text \<open>The size formula on the natural numbers.\<close>

definition need_nat :: "nat \<Rightarrow> nat \<Rightarrow> nat" where
  "need_nat tlen vlen =
     tlen + 4 + (vlen * 4 div 3 + 3) + ((vlen * 4 div 3 + 3) + tlen + 3) div 76 * 2"

section \<open>The decoder, step by step\<close>

lemma not_space_0 [simp]: "\<not> ISSPACE 0" by (simp add: ISSPACE_def)
lemma not_space_58 [simp]: "\<not> ISSPACE 58" by (simp add: ISSPACE_def)
lemma not_space_1 [simp]: "\<not> ISSPACE 1" by (simp add: ISSPACE_def word_le_nat_alt)

lemma rd_Nil [simp]: "rd [] i = 0" by (simp add: rd_def)
lemma rd_Cons_0 [simp]: "rd (x # xs) 0 = x" by (simp add: rd_def)
lemma rd_Cons_Suc [simp]: "rd (x # xs) (Suc i) = rd xs i" by (simp add: rd_def)
lemma rd_drop: "rd (drop i buf) j = rd buf (i + j)" by (auto simp: rd_def)
lemma rd_append: "rd (xs @ ys) i = (if i < length xs then xs ! i else rd ys (i - length xs))"
  by (auto simp: rd_def nth_append)
lemma rd_update: "rd (buf[i := v]) j = (if i = j \<and> j < length buf then v else rd buf j)"
  by (simp add: rd_def)
lemma rd_beyond: "length buf \<le> i \<Longrightarrow> rd buf i = 0" by (simp add: rd_def)
lemma rd_in_set: "rd buf i \<noteq> 0 \<Longrightarrow> rd buf i \<in> set buf"
  by (auto simp: rd_def split: if_splits)

lemma skip_space_eq: "skip_space buf i = i + length (takeWhile ISSPACE (drop i buf))"
proof (induction buf i rule: skip_space.induct)
  case (1 buf i)
  show ?case
  proof (cases "i < length buf")
    case True
    then have d: "drop i buf = buf ! i # drop (Suc i) buf" by (simp add: Cons_nth_drop_Suc)
    show ?thesis using True 1 by (subst skip_space.simps) (simp add: d rd_def)
  next
    case False
    then show ?thesis by (subst skip_space.simps) (simp add: rd_def)
  qed
qed

lemma find_colon_eq:
  "find_colon buf i = i + length (takeWhile (\<lambda>c. c \<noteq> 0 \<and> c \<noteq> 58) (drop i buf))"
proof (induction buf i rule: find_colon.induct)
  case (1 buf i)
  show ?case
  proof (cases "i < length buf")
    case True
    then have d: "drop i buf = buf ! i # drop (Suc i) buf" by (simp add: Cons_nth_drop_Suc)
    show ?thesis using True 1 by (subst find_colon.simps) (simp add: d rd_def)
  next
    case False
    then show ?thesis by (subst find_colon.simps) (simp add: rd_def)
  qed
qed

lemma strend_eq:
  "strend buf i = i + length (cstr (drop i buf))"
proof (induction buf i rule: strend.induct)
  case (1 buf i)
  show ?case
  proof (cases "i < length buf")
    case True
    then have d: "drop i buf = buf ! i # drop (Suc i) buf" by (simp add: Cons_nth_drop_Suc)
    show ?thesis using True 1 by (subst strend.simps) (simp add: d rd_def cstr_def)
  next
    case False
    then show ?thesis by (subst strend.simps) (simp add: rd_def cstr_def)
  qed
qed

lemma length_trim_type [simp]: "length (trim_type buf line p) = length buf"
  by (induction buf line p rule: trim_type.induct) (subst trim_type.simps, simp)

lemma trim_type_drop: "p \<le> line \<or> p < k \<Longrightarrow> drop k (trim_type buf line p) = drop k buf"
proof (induction buf line p rule: trim_type.induct)
  case (1 buf line p)
  show ?case
  proof (cases "p > line \<and> ISSPACE (rd buf p)")
    case True
    with 1(2) have pk: "p < k" by auto
    from True have "trim_type buf line p = trim_type (buf[p := 0]) line (p - 1)"
      by (subst trim_type.simps) simp
    also have "drop k \<dots> = drop k (buf[p := 0])"
    proof (rule 1(1)[OF True])
      show "p - 1 \<le> line \<or> p - 1 < k" using pk by arith
    qed
    finally show ?thesis using pk by simp
  next
    case False
    then show ?thesis by (subst trim_type.simps) auto
  qed
qed

lemma trim_type_take: "take (Suc line) (trim_type buf line p) = take (Suc line) buf"
proof (induction buf line p rule: trim_type.induct)
  case (1 buf line p)
  show ?case
  proof (cases "p > line \<and> ISSPACE (rd buf p)")
    case True
    with 1 have "take (Suc line) (trim_type (buf[p := 0]) line (p - 1)) = take (Suc line) (buf[p := 0])"
      by auto
    then show ?thesis using True by (subst trim_type.simps) simp
  next
    case False
    then show ?thesis by (subst trim_type.simps) auto
  qed
qed

lemma trim_type_id: "\<not> ISSPACE (rd buf p) \<Longrightarrow> trim_type buf line p = buf"
  by (subst trim_type.simps) simp

lemma find_colon_stops: "rd buf (find_colon buf i) = 0 \<or> rd buf (find_colon buf i) = 58"
proof (induction buf i rule: find_colon.induct)
  case (1 buf s)
  show ?case
  proof (cases "rd buf s \<noteq> 0 \<and> rd buf s \<noteq> 58")
    case True
    then have "find_colon buf s = find_colon buf (Suc s)" by (subst find_colon.simps) simp
    with 1 True show ?thesis by simp
  next
    case False
    then have "find_colon buf s = s" by (subst find_colon.simps) auto
    with False show ?thesis by auto
  qed
qed

lemma no_colon: "58 \<notin> set line \<Longrightarrow> str_parse_line line = Inl MissingSeparator"
proof -
  assume a: "58 \<notin> set line"
  let ?l = "skip_space line 0"
  have "rd line (find_colon line ?l) \<noteq> 58"
    using a rd_in_set[of line "find_colon line ?l"] by auto
  with find_colon_stops[of line ?l] show ?thesis by (simp add: str_parse_line_def Let_def)
qed

lemma takeWhile_append_stop:
  "\<forall>x\<in>set xs. P x \<Longrightarrow> \<not> P y \<Longrightarrow> takeWhile P (xs @ y # ys) = xs"
  by (induction xs) auto

lemma takeWhile_all: "\<forall>x\<in>set xs. P x \<Longrightarrow> takeWhile P xs = xs"
  by (induction xs) auto

lemma length_takeWhile_append_le:
  "\<not> P y \<Longrightarrow> length (takeWhile P (xs @ y # ys)) \<le> length xs"
  by (induction xs) auto

text \<open>The decoder up to the colon, on a line whose type part has no colon and no NUL.\<close>

lemma parse_prefix:
  fixes ty rest :: "byte list"
  assumes ty: "58 \<notin> set ty" "0 \<notin> set ty"
  defines "buf0 \<equiv> ty @ 58 # rest"
  defines "line \<equiv> skip_space buf0 0"
  defines "s \<equiv> find_colon buf0 line"
  defines "buf2 \<equiv> (trim_type buf0 line (s - 1))[s := 0]"
  shows "line \<le> length ty" "s = length ty" "rd buf0 s = 58"
    "drop (Suc s) buf2 = rest" "length buf2 = length buf0"
proof -
  show l: "line \<le> length ty"
    by (simp add: line_def buf0_def skip_space_eq length_takeWhile_append_le)
  have "drop line buf0 = drop line ty @ 58 # rest" using l by (simp add: buf0_def)
  moreover have "\<forall>x\<in>set (drop line ty). x \<noteq> 0 \<and> x \<noteq> 58"
    using ty by (auto dest: in_set_dropD)
  ultimately have "takeWhile (\<lambda>c. c \<noteq> 0 \<and> c \<noteq> 58) (drop line buf0) = drop line ty"
    by (simp add: takeWhile_append_stop)
  then show s: "s = length ty" using l by (simp add: s_def find_colon_eq)
  show "rd buf0 s = 58" by (simp add: s buf0_def rd_append)
  have "drop (Suc s) buf2 = drop (Suc s) (trim_type buf0 line (s - 1))"
    by (simp add: buf2_def drop_update_cancel)
  also have "\<dots> = drop (Suc s) buf0" by (rule trim_type_drop) auto
  also have "\<dots> = rest" by (simp add: s buf0_def)
  finally show "drop (Suc s) buf2 = rest" .
  show "length buf2 = length buf0" by (simp add: buf2_def)
qed

lemma skip_space_all:
  "\<forall>c\<in>set (drop i buf). ISSPACE c \<Longrightarrow> rd buf (skip_space buf i) = 0"
  by (auto simp: skip_space_eq takeWhile_all rd_def)

lemma no_value:
  assumes ty: "58 \<notin> set ty" "0 \<notin> set ty" and ws: "\<forall>c\<in>set ws. ISSPACE c"
  shows "str_parse_line (ty @ [58] @ ws) = Inl MissingValue"
    and "str_parse_line (ty @ [58, 58] @ ws) = Inl MissingValue"
proof -
  have w58: "rd ws 0 \<noteq> 58"
    using ws rd_in_set[of ws 0] by (cases "rd ws 0 = 0") auto
  note p = parse_prefix[OF ty, of ws]
  let ?buf0 = "ty @ 58 # ws"
  let ?line = "skip_space ?buf0 0"
  let ?s = "find_colon ?buf0 ?line"
  let ?buf2 = "(trim_type ?buf0 ?line (?s - 1))[?s := 0]"
  have a: "rd ?buf2 (Suc ?s + j) = rd ws j" for j
    using p(4) rd_drop[of "Suc ?s" ?buf2 j] by simp
  have b: "rd ?buf2 (Suc ?s) \<noteq> 58" using a[of 0] w58 by simp
  have "\<forall>c\<in>set (drop (Suc ?s) ?buf2). ISSPACE c" using p(4) ws by simp
  then have c: "rd ?buf2 (skip_space ?buf2 (Suc ?s)) = 0" by (rule skip_space_all)
  show "str_parse_line (ty @ [58] @ ws) = Inl MissingValue"
    using p(3) b c by (simp add: str_parse_line_def Let_def)
next
  note p = parse_prefix[OF ty, of "58 # ws"]
  let ?buf0 = "ty @ 58 # 58 # ws"
  let ?line = "skip_space ?buf0 0"
  let ?s = "find_colon ?buf0 ?line"
  let ?buf2 = "(trim_type ?buf0 ?line (?s - 1))[?s := 0]"
  have a: "rd ?buf2 (Suc ?s + j) = rd (58 # ws) j" for j
    using p(4) rd_drop[of "Suc ?s" ?buf2 j] by simp
  have b: "rd ?buf2 (Suc ?s) = 58" using a[of 0] by simp
  have "drop (Suc (Suc ?s)) ?buf2 = ws"
    using p(4) by (metis drop_Suc list.sel(3) tl_drop)
  then have "\<forall>c\<in>set (drop (Suc (Suc ?s)) ?buf2). ISSPACE c" using ws by simp
  then have c: "rd ?buf2 (skip_space ?buf2 (Suc (Suc ?s))) = 0" by (rule skip_space_all)
  show "str_parse_line (ty @ [58, 58] @ ws) = Inl MissingValue"
    using p(3) b c by (simp add: str_parse_line_def Let_def)
qed

lemma cstr_Nil [simp]: "cstr [] = []" by (simp add: cstr_def)
lemma cstr_Cons: "cstr (c # cs) = (if c = 0 then [] else c # cstr cs)" by (simp add: cstr_def)

lemma drop_rd_Cons: "p < length buf \<Longrightarrow> drop p buf = rd buf p # drop (Suc p) buf"
  by (simp add: rd_def Cons_nth_drop_Suc)

lemma strip_markers_spec:
  assumes "d \<le> p" "p \<le> length buf"
  shows "case strip_markers buf p d of (buf', d') \<Rightarrow>
          d' = d + length (filter (\<lambda>c. c \<noteq> 1) (cstr (drop p buf))) \<and>
          length buf' = length buf \<and>
          take d buf' = take d buf \<and>
          take (d' - d) (drop d buf') = filter (\<lambda>c. c \<noteq> 1) (cstr (drop p buf)) \<and>
          rd buf' d' = 0"
  using assms
proof (induction buf p d rule: strip_markers.induct)
  case (1 buf p d)
  show ?case
  proof (cases "rd buf p = 0")
    case True
    then have c: "cstr (drop p buf) = []"
      by (cases "p < length buf") (simp_all add: drop_rd_Cons cstr_Cons)
    from True have "strip_markers buf p d = (buf[d := 0], d)"
      by (subst strip_markers.simps) simp
    then show ?thesis using c by (simp add: rd_update rd_def)
  next
    case nz: False
    then have pl: "p < length buf" by (auto simp: rd_def split: if_splits)
    have dr: "drop p buf = rd buf p # drop (Suc p) buf" using pl by (rule drop_rd_Cons)
    show ?thesis
    proof (cases "rd buf p = CONTINUED_LINE_MARKER")
      case True
      then have e: "strip_markers buf p d = strip_markers buf (Suc p) d"
        using nz by (subst strip_markers.simps) simp
      have "case strip_markers buf (Suc p) d of (buf', d') \<Rightarrow>
          d' = d + length (filter (\<lambda>c. c \<noteq> 1) (cstr (drop (Suc p) buf))) \<and>
          length buf' = length buf \<and>
          take d buf' = take d buf \<and>
          take (d' - d) (drop d buf') = filter (\<lambda>c. c \<noteq> 1) (cstr (drop (Suc p) buf)) \<and>
          rd buf' d' = 0"
        using 1(2)[OF nz] True 1(3) pl by simp
      moreover have "filter (\<lambda>c. c \<noteq> 1) (cstr (drop p buf)) = filter (\<lambda>c. c \<noteq> 1) (cstr (drop (Suc p) buf))"
        using True nz by (subst dr) (simp add: cstr_Cons CONTINUED_LINE_MARKER_def)
      ultimately show ?thesis by (simp add: e)
    next
      case nm: False
      let ?c = "rd buf p"
      let ?b = "buf[d := ?c]"
      have e: "strip_markers buf p d = strip_markers ?b (Suc p) (Suc d)"
        using nz nm by (subst strip_markers.simps) simp
      have dl: "d < length buf" using 1(3) pl by simp
      have dd: "drop (Suc p) ?b = drop (Suc p) buf" using 1(3) by simp
      have ih: "case strip_markers ?b (Suc p) (Suc d) of (buf', d') \<Rightarrow>
          d' = Suc d + length (filter (\<lambda>c. c \<noteq> 1) (cstr (drop (Suc p) ?b))) \<and>
          length buf' = length ?b \<and>
          take (Suc d) buf' = take (Suc d) ?b \<and>
          take (d' - Suc d) (drop (Suc d) buf') = filter (\<lambda>c. c \<noteq> 1) (cstr (drop (Suc p) ?b)) \<and>
          rd buf' d' = 0"
        using 1(1)[OF nz nm] 1(3) pl by simp
      have f: "filter (\<lambda>c. c \<noteq> 1) (cstr (drop p buf)) = ?c # filter (\<lambda>c. c \<noteq> 1) (cstr (drop (Suc p) buf))"
        using nm nz by (subst dr) (simp add: cstr_Cons CONTINUED_LINE_MARKER_def)
      obtain buf' d' where r: "strip_markers ?b (Suc p) (Suc d) = (buf', d')" by force
      have ih': "d' = Suc d + length (filter (\<lambda>c. c \<noteq> 1) (cstr (drop (Suc p) buf))) \<and>
          length buf' = length buf \<and>
          take (Suc d) buf' = take (Suc d) ?b \<and>
          take (d' - Suc d) (drop (Suc d) buf') = filter (\<lambda>c. c \<noteq> 1) (cstr (drop (Suc p) buf)) \<and>
          rd buf' d' = 0"
        using ih unfolding r dd by auto
      from ih' have a1: "d' = Suc d + length (filter (\<lambda>c. c \<noteq> 1) (cstr (drop (Suc p) buf)))" by blast
      from ih' have a2: "length buf' = length buf" by blast
      from ih' have a3: "take (Suc d) buf' = take (Suc d) ?b" by blast
      from ih' have a4: "take (d' - Suc d) (drop (Suc d) buf') = filter (\<lambda>c. c \<noteq> 1) (cstr (drop (Suc p) buf))" by blast
      from ih' have a5: "rd buf' d' = 0" by blast
      have t1: "take d buf' = take d buf"
        using a3 by (metis dl take_Suc_conv_app_nth a2 length_list_update butlast_snoc butlast_take diff_Suc_1 le_add2 plus_1_eq_Suc take_update_cancel order_refl)
      have t2: "buf' ! d = ?c"
        using a3 dl a2 by (metis length_list_update lessI nth_list_update_eq nth_take)
      have "drop d buf' = ?c # drop (Suc d) buf'"
        using t2 dl a2 by (metis Cons_nth_drop_Suc)
      moreover have "d' - d = Suc (d' - Suc d)" using a1 by simp
      ultimately have "take (d' - d) (drop d buf') = ?c # take (d' - Suc d) (drop (Suc d) buf')"
        by simp
      then show ?thesis using a1 a2 t1 a4 a5 f by (simp add: e r)
    qed
  qed
qed

lemma bad_b64_0: "bad_b64 0" by (simp add: bad_b64_def b642nib_def)

lemma not_bad_in_range: "\<not> bad_b64 (rd buf i) \<Longrightarrow> i < length buf"
  using bad_b64_0 by (cases "i < length buf") (auto simp: rd_def)

lemma b64_loop_stop: "\<not> p < stop \<Longrightarrow> b64_loop buf stop p byte vlen = Inr (buf, vlen)"
  by (subst b64_loop.simps) simp

lemma b64_loop_bad:
  "p < stop \<Longrightarrow> bad_b64 (rd buf p) \<or> bad_b64 (rd buf (p + 1)) \<or> bad_b64 (rd buf (p + 2))
   \<Longrightarrow> b64_loop buf stop p byte vlen = Inl InvalidBase64Char"
  by (subst b64_loop.simps) simp

lemma b64_loop_full:
  assumes "p < stop" "byte \<le> p"
    and ok: "\<not> bad_b64 (rd buf p)" "\<not> bad_b64 (rd buf (p + 1))" "\<not> bad_b64 (rd buf (p + 2))"
    and ne: "rd buf (p + 2) \<noteq> 61" "rd buf (p + 3) \<noteq> 61"
  shows "b64_loop buf stop p byte vlen =
         b64_loop (buf[byte := dec0 (rd buf p) (rd buf (p + 1)),
                       byte + 1 := dec1 (rd buf (p + 1)) (rd buf (p + 2)),
                       byte + 2 := dec2 (rd buf (p + 2)) (rd buf (p + 3))])
                  stop (p + 4) (byte + 3) (vlen + 3)"
proof -
  have l: "p + 2 < length buf" using ok(3) by (rule not_bad_in_range)
  then have bl: "byte < length buf" "byte + 1 < length buf" "byte + 2 < length buf"
    using assms(2) by auto
  have n: "byte \<noteq> p + 1" "byte \<noteq> p + 2" "byte \<noteq> p + 3" "byte + 1 \<noteq> p + 2" "byte + 1 \<noteq> p + 3"
    "byte + 2 \<noteq> p + 3" "Suc byte \<noteq> p + 2" "Suc byte \<noteq> p + 3" "Suc (Suc byte) \<noteq> p + 3"
    using assms(2) by auto
  show ?thesis
    using assms(1) ok ne bl n
    by (subst b64_loop.simps) (simp add: Let_def rd_update dec0_def dec1_def dec2_def)
qed

lemma b64_loop_pad3:
  assumes "p < stop" "byte \<le> p"
    and ok: "\<not> bad_b64 (rd buf p)" "\<not> bad_b64 (rd buf (p + 1))"
    and eq: "rd buf (p + 2) = 61"
  shows "b64_loop buf stop p byte vlen =
         Inr (buf[byte := dec0 (rd buf p) (rd buf (p + 1)),
                  byte + 1 := push_bit 4 (nib_of (rd buf (p + 1)) AND RIGHT4)], vlen + 1)"
proof -
  have l: "p + 1 < length buf" using ok(2) by (rule not_bad_in_range)
  then have bl: "byte < length buf" "byte + 1 < length buf"
    using assms(2) by auto
  have n: "byte \<noteq> p + 1" "byte \<noteq> p + 2" "byte + 1 \<noteq> p + 2" "Suc byte \<noteq> p + 2"
    using assms(2) by auto
  have b3: "\<not> bad_b64 (rd buf (p + 2))" using eq by (simp add: bad_b64_def)
  show ?thesis
    using assms(1) ok eq bl n b3
    by (subst b64_loop.simps) (simp add: Let_def rd_update dec0_def)
qed

lemma b64_loop_pad4:
  assumes "p < stop" "byte \<le> p"
    and ok: "\<not> bad_b64 (rd buf p)" "\<not> bad_b64 (rd buf (p + 1))" "\<not> bad_b64 (rd buf (p + 2))"
    and ne: "rd buf (p + 2) \<noteq> 61" and eq: "rd buf (p + 3) = 61"
  shows "b64_loop buf stop p byte vlen =
         Inr (buf[byte := dec0 (rd buf p) (rd buf (p + 1)),
                  byte + 1 := dec1 (rd buf (p + 1)) (rd buf (p + 2)),
                  byte + 2 := push_bit 6 (nib_of (rd buf (p + 2)) AND RIGHT2)], vlen + 2)"
proof -
  have l: "p + 2 < length buf" using ok(3) by (rule not_bad_in_range)
  then have bl: "byte < length buf" "byte + 1 < length buf" "byte + 2 < length buf"
    using assms(2) by auto
  have n: "byte \<noteq> p + 1" "byte \<noteq> p + 2" "byte \<noteq> p + 3" "byte + 1 \<noteq> p + 2" "byte + 1 \<noteq> p + 3"
    "byte + 2 \<noteq> p + 3" "Suc byte \<noteq> p + 2" "Suc byte \<noteq> p + 3" "Suc (Suc byte) \<noteq> p + 3"
    using assms(2) by auto
  show ?thesis
    using assms(1) ok ne eq bl n
    by (subst b64_loop.simps) (simp add: Let_def rd_update dec0_def dec1_def)
qed

lemma cstr_no_nul: "0 \<notin> set xs \<Longrightarrow> cstr xs = xs"
  by (induction xs) (auto simp: cstr_Cons)

lemma cstr_append_nul: "0 \<notin> set xs \<Longrightarrow> cstr (xs @ 0 # ys) = xs"
  by (induction xs) (auto simp: cstr_Cons)

lemma cstr_from_take:
  assumes "take n xs = ys" "0 \<notin> set ys" "rd xs n = 0" "length ys = n"
  shows "cstr xs = ys"
proof (cases "n < length xs")
  case True
  then have "xs = take n xs @ xs ! n # drop (Suc n) xs" by (simp add: id_take_nth_drop[symmetric])
  then have "xs = ys @ 0 # drop (Suc n) xs" using assms True by (simp add: rd_def)
  then show ?thesis using cstr_append_nul[OF assms(2)] by metis
next
  case False
  then have "xs = ys" using assms(1) by simp
  then show ?thesis using assms(2) by (simp add: cstr_no_nul)
qed

lemma rd_from_take: "take n xs = ys \<Longrightarrow> j < length ys \<Longrightarrow> rd xs j = ys ! j"
  by (auto simp: rd_def)

text \<open>The state of the decoder when it reaches the value.\<close>

lemma parse_to_value:
  fixes ty ws m cc :: "byte list"
  assumes ty: "58 \<notin> set ty" "0 \<notin> set ty" and ws: "\<forall>c\<in>set ws. ISSPACE c"
    and m: "m \<noteq> []" "\<not> ISSPACE (hd m)" "0 \<notin> set m"
  defines "buf0 \<equiv> ty @ 58 # cc @ ws @ m"
  defines "line \<equiv> skip_space buf0 0"
  defines "s \<equiv> find_colon buf0 line"
  defines "buf2 \<equiv> (trim_type buf0 line (s - 1))[s := 0]"
  defines "s3 \<equiv> length ty + 1 + length cc + length ws"
  defines "text \<equiv> filter (\<lambda>c. c \<noteq> 1) m"
  shows "s = length ty" "rd buf0 s = 58" "drop (Suc s) buf2 = cc @ ws @ m"
    "skip_space buf2 (Suc s + length cc) = s3" "rd buf2 s3 \<noteq> 0"
    "\<exists>buf3. strip_markers buf2 s3 s3 = (buf3, s3 + length text) \<and> length buf3 = length buf0
        \<and> take s3 buf3 = take s3 buf2 \<and> take (length text) (drop s3 buf3) = text
        \<and> rd buf3 (s3 + length text) = 0 \<and> strend buf3 s3 = s3 + length text"
proof -
  note p = parse_prefix[OF ty, of "cc @ ws @ m"]
  show s: "s = length ty" using p(2) by (simp add: s_def line_def buf0_def)
  show "rd buf0 s = 58" using p(3) by (simp add: s_def line_def buf0_def)
  show d: "drop (Suc s) buf2 = cc @ ws @ m"
    using p(4) by (simp add: buf2_def s_def line_def buf0_def)
  have l2: "length buf2 = length buf0" by (simp add: buf2_def)
  have sl: "Suc s + length cc \<le> length buf2" by (simp add: l2 s buf0_def)
  have d2: "drop (Suc s + length cc) buf2 = ws @ m"
    using d by (metis append_eq_conv_conj drop_drop add.commute)
  obtain h tl where hm: "m = h # tl" using m(1) by (cases m) auto
  have "takeWhile ISSPACE (ws @ m) = ws"
    using ws m(2) unfolding hm by (simp add: takeWhile_append_stop)
  moreover have "drop (Suc (length ty + length cc)) buf2 = ws @ m" using d2 by (simp add: s)
  ultimately show k: "skip_space buf2 (Suc s + length cc) = s3"
    by (simp add: skip_space_eq s3_def s)
  have d3: "drop s3 buf2 = m"
    using d2 by (metis append_eq_conv_conj drop_drop add.commute s3_def s add_Suc_right add_Suc plus_1_eq_Suc add.assoc)
  have "rd buf2 s3 = h" using rd_drop[of s3 buf2 0] d3 hm by simp
  moreover have "h \<noteq> 0" using m(3) hm by auto
  ultimately show "rd buf2 s3 \<noteq> 0" by simp
  have s3l: "s3 \<le> length buf2" by (simp add: l2 s3_def buf0_def)
  obtain buf3 d where r: "strip_markers buf2 s3 s3 = (buf3, d)" by force
  have c: "cstr (drop s3 buf2) = m" using d3 m(3) by (simp add: cstr_no_nul)
  from strip_markers_spec[of s3 s3 buf2] s3l
  have sp: "d = s3 + length text \<and> length buf3 = length buf2 \<and> take s3 buf3 = take s3 buf2
      \<and> take (d - s3) (drop s3 buf3) = text \<and> rd buf3 d = 0"
    unfolding r c text_def by auto
  then have dd: "d = s3 + length text" by blast
  have nt: "0 \<notin> set text" using m(3) by (auto simp: text_def)
  have "cstr (drop s3 buf3) = text"
  proof (rule cstr_from_take)
    show "take (length text) (drop s3 buf3) = text" using sp dd by simp
    show "0 \<notin> set text" by (rule nt)
    show "rd (drop s3 buf3) (length text) = 0" using sp dd by (simp add: rd_drop)
    show "length text = length text" ..
  qed
  then have "strend buf3 s3 = s3 + length text" by (simp add: strend_eq)
  then show "\<exists>buf3. strip_markers buf2 s3 s3 = (buf3, s3 + length text) \<and> length buf3 = length buf0
        \<and> take s3 buf3 = take s3 buf2 \<and> take (length text) (drop s3 buf3) = text
        \<and> rd buf3 (s3 + length text) = 0 \<and> strend buf3 s3 = s3 + length text"
    using sp dd r l2 by auto
qed

lemma m1: "(0xfc0000 :: 64 word) = push_bit 18 (mask 6)" by (simp add: mask_eq_exp_minus_1)
lemma m2: "(0xff :: 64 word) = mask 8" by (simp add: mask_eq_exp_minus_1)
lemma RIGHT4_mask: "RIGHT4 = mask 4" by (simp add: RIGHT4_def mask_eq_exp_minus_1)
lemma RIGHT2_mask: "RIGHT2 = mask 2" by (simp add: RIGHT2_def mask_eq_exp_minus_1)

lemma idx0: "nib_index 0 (bits_of b0 b1 b2) = drop_bit 2 b0"
  unfolding nib_index_def bits_of_def m1 m2
  by (rule bit_word_eqI) (auto simp: bit_simps dest: bit_imp_le_length)

lemma idx1: "nib_index 1 (bits_of b0 b1 b2) = push_bit 4 (b0 AND mask 2) OR drop_bit 4 b1"
  unfolding nib_index_def bits_of_def m1 m2
  by (rule bit_word_eqI) (auto simp: bit_simps dest: bit_imp_le_length)

lemma idx2: "nib_index 2 (bits_of b0 b1 b2) = push_bit 2 (b1 AND mask 4) OR drop_bit 6 b2"
  unfolding nib_index_def bits_of_def m1 m2
  by (rule bit_word_eqI) (auto simp: bit_simps dest: bit_imp_le_length)

lemma idx3: "nib_index 3 (bits_of b0 b1 b2) = b2 AND mask 6"
  unfolding nib_index_def bits_of_def m1 m2
  by (rule bit_word_eqI) (auto simp: bit_simps)

lemma idx_mask: "nib_index i bits = nib_index i bits AND mask 6"
  unfolding nib_index_def m1
  by (rule bit_word_eqI) (auto simp: bit_simps)

lemma idx_lt: "unat (nib_index i bits) < 64"
proof -
  have "nib_index i bits AND mask 6 < 2 ^ 6" by (rule and_mask_less') simp
  then show ?thesis using idx_mask[of i bits] by (simp add: word_less_nat_alt)
qed

lemma unat_index: "unat (drop_bit 18 (push_bit (6 * i) bits AND (0xfc0000 :: 64 word))) = unat (nib_index i bits)"
proof -
  let ?x = "drop_bit 18 (push_bit (6 * i) bits AND (0xfc0000 :: 64 word))"
  have "?x = ?x AND mask 6" unfolding m1 by (rule bit_word_eqI) (auto simp: bit_simps)
  moreover have "?x AND mask 6 < 2 ^ 6" by (rule and_mask_less') simp
  ultimately have "?x < 2 ^ 6" by simp
  then have "unat ?x < 64" by (simp add: word_less_nat_alt)
  then show ?thesis unfolding nib_index_def by (simp add: unsigned_ucast_eq take_bit_nat_eq_self)
qed

lemma digit_index: "digit i bits = nib2b64 ! unat (nib_index i bits)"
  unfolding digit_def unat_index ..

lemma ssm: "2 \<le> n \<Longrightarrow> Suc (Suc (n - 2)) = n" by arith

lemma dec0_bits: "push_bit 2 (drop_bit 2 b0) OR signed_drop_bit 4 (push_bit 4 (b0 AND mask 2) OR drop_bit 4 b1) = (b0 :: byte)"
  apply (rule bit_word_eqI)
  subgoal for n
    apply (cases "2 \<le> n")
     apply (auto simp: bit_simps ssm dest: bit_imp_le_length)
    done
  done

lemma dec1_bits: "push_bit 4 ((push_bit 4 (b0 AND mask 2) OR drop_bit 4 b1) AND mask 4) OR signed_drop_bit 2 (push_bit 2 (b1 AND mask 4) OR drop_bit 6 b2) = (b1 :: byte)"
  apply (rule bit_word_eqI)
  subgoal for n
    apply (cases "4 \<le> n")
     apply (auto simp: bit_simps ssm dest: bit_imp_le_length)
    done
  done

lemma dec2_bits: "push_bit 6 ((push_bit 2 (b1 AND mask 4) OR drop_bit 6 b2) AND mask 2) OR (b2 AND mask 6) = (b2 :: byte)"
  apply (rule bit_word_eqI)
  subgoal for n
    apply (cases "6 \<le> n")
     apply (auto simp: bit_simps ssm dest: bit_imp_le_length)
    done
  done

lemma all_digits_ok: "list_all digit_ok [0..<64]"
  by code_simp

lemma digit_ok: "n < 64 \<Longrightarrow> digit_ok n"
  using all_digits_ok by (simp add: list_all_iff)

lemma digit_props:
  "nib_of (digit i bits) = nib_index i bits" "\<not> bad_b64 (digit i bits)" "digit i bits \<noteq> 61"
  "digit i bits \<noteq> 10" "digit i bits \<noteq> 32" "digit i bits \<noteq> 1" "digit i bits \<noteq> 0"
  "\<not> ISSPACE (digit i bits)" "digit i bits \<noteq> 58"
  using digit_ok[OF idx_lt[of i bits]] by (simp_all add: digit_index digit_ok_def Let_def)

lemma dec_digits:
  "dec0 (digit 0 (bits_of b0 b1 b2)) (digit 1 (bits_of b0 b1 b2)) = b0"
  "dec1 (digit 1 (bits_of b0 b1 b2)) (digit 2 (bits_of b0 b1 b2)) = b1"
  "dec2 (digit 2 (bits_of b0 b1 b2)) (digit 3 (bits_of b0 b1 b2)) = b2"
  unfolding dec0_def dec1_def dec2_def digit_props idx0 idx1 idx2 idx3 RIGHT4_mask RIGHT2_mask
  by (rule dec0_bits dec1_bits dec2_bits)+

lemma drop3_rd:
  "byte + 2 < length xs \<Longrightarrow>
   drop byte xs = rd xs byte # rd xs (byte + 1) # rd xs (byte + 2) # drop (byte + 3) xs"
  using drop_rd_Cons[of byte xs] drop_rd_Cons[of "Suc byte" xs] drop_rd_Cons[of "Suc (Suc byte)" xs]
  by (simp add: numeral_3_eq_3)

lemma dec_digits_Suc:
  "dec0 (digit 0 (bits_of b0 b1 b2)) (digit (Suc 0) (bits_of b0 b1 b2)) = b0"
  "dec1 (digit (Suc 0) (bits_of b0 b1 b2)) (digit 2 (bits_of b0 b1 b2)) = b1"
  using dec_digits(1,2)[of b0 b1 b2] by simp_all

lemma b64_loop_decodes:
  assumes "\<forall>j<length (b64_text v). rd buf (p + j) = b64_text v ! j" "byte \<le> p"
    "stop = p + length (b64_text v)"
  shows "\<exists>buf'. b64_loop buf stop p byte vlen = Inr (buf', vlen + int (length v))
           \<and> length buf' = length buf \<and> (\<forall>i<byte. rd buf' i = rd buf i)
           \<and> take (length v) (drop byte buf') = v"
  using assms
proof (induction v arbitrary: buf p byte vlen stop rule: b64_text.induct)
  case (1 b0 b1 b2 rest)
  let ?bits = "bits_of b0 b1 b2"
  have r: "rd buf p = digit 0 ?bits" "rd buf (p + 1) = digit 1 ?bits"
    "rd buf (p + 2) = digit 2 ?bits" "rd buf (p + 3) = digit 3 ?bits"
    using 1(2)[rule_format, of 0] 1(2)[rule_format, of 1] 1(2)[rule_format, of 2]
      1(2)[rule_format, of 3] by simp_all
  have r': "rd buf (Suc p) = digit 1 ?bits" "rd buf (Suc (Suc p)) = digit 2 ?bits"
    using r by simp_all
  note r = r r'
  have ps: "p < stop" using 1(4) by simp
  let ?buf1 = "buf[byte := b0, byte + 1 := b1, byte + 2 := b2]"
  have step: "b64_loop buf stop p byte vlen = b64_loop ?buf1 stop (p + 4) (byte + 3) (vlen + 3)"
    using b64_loop_full[OF ps 1(3), of buf vlen] by (simp add: r digit_props dec_digits dec_digits_Suc)
  have l: "p + 2 < length buf" by (rule not_bad_in_range) (simp add: r digit_props)
  have a1: "\<forall>j<length (b64_text rest). rd ?buf1 (p + 4 + j) = b64_text rest ! j"
  proof (intro allI impI)
    fix j assume "j < length (b64_text rest)"
    then have "rd buf (p + (4 + j)) = b64_text (b0 # b1 # b2 # rest) ! (4 + j)"
      using 1(2)[rule_format, of "4 + j"] by simp
    then show "rd ?buf1 (p + 4 + j) = b64_text rest ! j"
      using 1(3) by (simp add: rd_update add.assoc)
  qed
  have a2: "byte + 3 \<le> p + 4" using 1(3) by simp
  have a3: "stop = p + 4 + length (b64_text rest)" using 1(4) by simp
  from 1(1)[OF a1 a2 a3, of "vlen + 3"] obtain buf' where
    b: "b64_loop ?buf1 stop (p + 4) (byte + 3) (vlen + 3) = Inr (buf', vlen + 3 + int (length rest))"
    and bl: "length buf' = length ?buf1"
    and bp: "\<forall>i<byte + 3. rd buf' i = rd ?buf1 i"
    and bt: "take (length rest) (drop (byte + 3) buf') = rest" by blast
  have bl': "byte + 2 < length buf'" using bl l 1(3) by simp
  have v: "rd buf' byte = b0" "rd buf' (byte + 1) = b1" "rd buf' (byte + 2) = b2"
    using bp l 1(3) by (simp_all add: rd_update)
  have "take (length (b0 # b1 # b2 # rest)) (drop byte buf') = b0 # b1 # b2 # rest"
    using drop3_rd[OF bl'] v bt by simp
  moreover have "\<forall>i<byte. rd buf' i = rd buf i" using bp by (simp add: rd_update)
  ultimately show ?case using step b bl by simp
next
  case (2 b0 b1)
  let ?bits = "bits_of b0 b1 0"
  have r: "rd buf p = digit 0 ?bits" "rd buf (p + 1) = digit 1 ?bits"
    "rd buf (p + 2) = digit 2 ?bits" "rd buf (p + 3) = 61"
    using 2(1)[rule_format, of 0] 2(1)[rule_format, of 1] 2(1)[rule_format, of 2]
      2(1)[rule_format, of 3] by simp_all
  have r': "rd buf (Suc p) = digit 1 ?bits" "rd buf (Suc (Suc p)) = digit 2 ?bits"
    using r by simp_all
  note r = r r'
  have ps: "p < stop" using 2(3) by simp
  let ?buf1 = "buf[byte := b0, byte + 1 := b1, byte + 2 := push_bit 6 (nib_of (digit 2 ?bits) AND RIGHT2)]"
  have step: "b64_loop buf stop p byte vlen = Inr (?buf1, vlen + 2)"
    using b64_loop_pad4[OF ps 2(2), of buf vlen] by (simp add: r digit_props dec_digits dec_digits_Suc)
  have l: "p + 2 < length buf" by (rule not_bad_in_range) (simp add: r digit_props)
  then have bl': "byte + 2 < length ?buf1" using 2(2) by simp
  have v: "rd ?buf1 byte = b0" "rd ?buf1 (byte + 1) = b1"
    using l 2(2) by (simp_all add: rd_update)
  have "take (length [b0, b1]) (drop byte ?buf1) = [b0, b1]"
    using drop3_rd[OF bl'] v by simp
  moreover have "\<forall>i<byte. rd ?buf1 i = rd buf i" by (simp add: rd_update)
  ultimately show ?case using step by simp
next
  case (3 b0)
  let ?bits = "bits_of b0 0 0"
  have r: "rd buf p = digit 0 ?bits" "rd buf (p + 1) = digit 1 ?bits" "rd buf (p + 2) = 61"
    using 3(1)[rule_format, of 0] 3(1)[rule_format, of 1] 3(1)[rule_format, of 2] by simp_all
  have r': "rd buf (Suc p) = digit 1 ?bits" "rd buf (Suc (Suc p)) = 61"
    using r by simp_all
  note r = r r'
  have ps: "p < stop" using 3(3) by simp
  let ?buf1 = "buf[byte := b0, byte + 1 := push_bit 4 (nib_of (digit 1 ?bits) AND RIGHT4)]"
  have step: "b64_loop buf stop p byte vlen = Inr (?buf1, vlen + 1)"
    using b64_loop_pad3[OF ps 3(2), of buf vlen] by (simp add: r digit_props dec_digits dec_digits_Suc)
  have l: "p + 1 < length buf" by (rule not_bad_in_range) (simp add: r digit_props)
  then have bl': "byte < length ?buf1" using 3(2) by simp
  have v: "rd ?buf1 byte = b0"
    using l 3(2) by (simp_all add: rd_update)
  have "take (length [b0]) (drop byte ?buf1) = [b0]"
    using drop_rd_Cons[OF bl'] v by simp
  moreover have "\<forall>i<byte. rd ?buf1 i = rd buf i" by (simp add: rd_update)
  ultimately show ?case using step by simp
next
  case 4
  then show ?case by (simp add: b64_loop_stop)
qed

lemma cstr_append_nul': "cstr (xs @ 0 # ys) = cstr xs"
  by (induction xs) (auto simp: cstr_Cons)

lemma cstr_drop_nul:
  assumes "line \<le> s" "s < length xs" "xs ! s = 0"
  shows "cstr (drop line xs) = cstr (drop line (take s xs))"
proof -
  have "xs = take s xs @ 0 # drop (Suc s) xs"
    using assms(2,3) by (metis id_take_nth_drop)
  then have "drop line xs = drop line (take s xs) @ 0 # drop (Suc s) xs"
    using assms(1,2) by (metis drop_append length_take min.absorb2 less_imp_le diff_is_0_eq drop_0)
  then show ?thesis by (simp add: cstr_append_nul')
qed

lemma rd_eq_take: "length a = length b \<Longrightarrow> \<forall>i<n. rd a i = rd b i \<Longrightarrow> take n a = take n b"
  by (rule nth_equalityI) (auto simp: rd_def)

lemma parse_plain_line:
  fixes ty ws m :: "byte list"
  assumes ty: "58 \<notin> set ty" "0 \<notin> set ty" and ws: "\<forall>c\<in>set ws. ISSPACE c"
    and m: "m \<noteq> []" "\<not> ISSPACE (hd m)" "0 \<notin> set m"
    and nb: "ws \<noteq> [] \<or> hd m \<noteq> 58"
  defines "buf0 \<equiv> ty @ 58 # ws @ m"
  defines "line \<equiv> skip_space buf0 0"
  defines "buf2 \<equiv> (trim_type buf0 line (length ty - 1))[length ty := 0]"
  defines "text \<equiv> filter (\<lambda>c. c \<noteq> 1) m"
  shows "str_parse_line buf0 = Inr (cstr (drop line (take (length ty) buf2)), text, int (length text))"
proof -
  note p = parse_to_value[OF ty ws m, of "[]"]
  have s: "find_colon buf0 line = length ty" using p(1) by (simp add: buf0_def line_def)
  have c: "rd buf0 (length ty) = 58" by (simp add: buf0_def rd_append)
  have d: "drop (Suc (length ty)) buf2 = ws @ m"
    using p(3)[unfolded p(1)] by (simp add: buf0_def line_def buf2_def)
  have h: "rd (ws @ m) 0 \<noteq> 58"
    using nb m(1) ws by (cases ws; cases m) auto
  have nb64: "rd buf2 (Suc (length ty)) \<noteq> 58"
    using rd_drop[of "Suc (length ty)" buf2 0] d h by simp
  let ?s3 = "Suc (length ty + length ws)"
  have k: "skip_space buf2 (Suc (length ty)) = ?s3"
    using p(4)[unfolded p(1)] by (simp add: buf0_def line_def buf2_def)
  have nz: "rd buf2 ?s3 \<noteq> 0" using p(5)[unfolded p(1)] by (simp add: buf0_def line_def buf2_def)
  from p(6)[unfolded p(1)] obtain buf3 where
    sm: "strip_markers buf2 ?s3 ?s3 = (buf3, ?s3 + length text)" and
    l3: "length buf3 = length buf0" and
    t3: "take ?s3 buf3 = take ?s3 buf2" and
    v3: "take (length text) (drop ?s3 buf3) = text"
    by (auto simp: buf0_def line_def buf2_def text_def)
  have ll: "line \<le> length ty"
    using parse_prefix(1)[OF ty, of "ws @ m"] by (simp add: line_def buf0_def)
  have l0: "length ty < length buf0" by (simp add: buf0_def)
  have z2: "buf2 ! length ty = 0" using l0 by (simp add: buf2_def)
  have "buf3 ! length ty = take ?s3 buf3 ! length ty" by simp
  also have "\<dots> = 0" using z2 by (simp add: t3)
  finally have z3: "buf3 ! length ty = 0" .
  have "take (length ty) buf3 = take (length ty) (take ?s3 buf3)" by (simp add: min_def)
  also have "\<dots> = take (length ty) buf2" by (simp add: t3 min_def)
  finally have tt: "take (length ty) buf3 = take (length ty) buf2" .
  have tyeq: "cstr (drop line buf3) = cstr (drop line (take (length ty) buf2))"
    using cstr_drop_nul[OF ll _ z3] l3 l0 tt by simp
  show ?thesis
    using s c nb64 k nz sm tyeq v3
    unfolding str_parse_line_def Let_def line_def[symmetric]
    by (simp add: buf2_def[symmetric] del: One_nat_def)
qed

lemma parse_b64_line:
  fixes ty ws m :: "byte list"
  assumes ty: "58 \<notin> set ty" "0 \<notin> set ty" and ws: "\<forall>c\<in>set ws. ISSPACE c"
    and m: "m \<noteq> []" "\<not> ISSPACE (hd m)" "0 \<notin> set m"
  defines "buf0 \<equiv> ty @ 58 # 58 # ws @ m"
  defines "line \<equiv> skip_space buf0 0"
  defines "buf2 \<equiv> (trim_type buf0 line (length ty - 1))[length ty := 0]"
  defines "text \<equiv> filter (\<lambda>c. c \<noteq> 1) m"
  defines "s3 \<equiv> length ty + 2 + length ws"
  shows "\<exists>buf3. length buf3 = length buf0 \<and> take s3 buf3 = take s3 buf2
          \<and> take (length text) (drop s3 buf3) = text
          \<and> str_parse_line buf0 =
            (case b64_loop buf3 (s3 + length text) s3 s3 0 of
               Inl e \<Rightarrow> Inl e
             | Inr (buf4, vlen) \<Rightarrow>
                 Inr (cstr (drop line (buf4[s3 + nat vlen := 0])),
                      take (nat vlen) (drop s3 (buf4[s3 + nat vlen := 0])), vlen))"
proof -
  note p = parse_to_value[OF ty ws m, of "[58]"]
  have s: "find_colon buf0 line = length ty" using p(1) by (simp add: buf0_def line_def)
  have c: "rd buf0 (length ty) = 58" by (simp add: buf0_def rd_append)
  have d: "drop (Suc (length ty)) buf2 = 58 # ws @ m"
    using p(3)[unfolded p(1)] by (simp add: buf0_def line_def buf2_def)
  have b64: "rd buf2 (Suc (length ty)) = 58"
    using rd_drop[of "Suc (length ty)" buf2 0] d by simp
  have s3: "s3 = Suc (Suc (length ty + length ws))" by (simp add: s3_def)
  have k: "skip_space buf2 (Suc (Suc (length ty))) = s3"
    using p(4)[unfolded p(1)] by (simp add: buf0_def line_def buf2_def s3)
  have nz: "rd buf2 s3 \<noteq> 0" using p(5)[unfolded p(1)] by (simp add: buf0_def line_def buf2_def s3)
  from p(6)[unfolded p(1)] obtain buf3 where
    sm: "strip_markers buf2 s3 s3 = (buf3, s3 + length text)" and
    l3: "length buf3 = length buf0" and
    t3: "take s3 buf3 = take s3 buf2" and
    v3: "take (length text) (drop s3 buf3) = text" and
    se: "strend buf3 s3 = s3 + length text"
    by (auto simp: buf0_def line_def buf2_def text_def s3)
  have "str_parse_line buf0 =
            (case b64_loop buf3 (s3 + length text) s3 s3 0 of
               Inl e \<Rightarrow> Inl e
             | Inr (buf4, vlen) \<Rightarrow>
                 Inr (cstr (drop line (buf4[s3 + nat vlen := 0])),
                      take (nat vlen) (drop s3 (buf4[s3 + nat vlen := 0])), vlen))"
    using s c b64 k nz sm se
    unfolding str_parse_line_def Let_def line_def[symmetric]
    by (simp add: buf2_def[symmetric] del: One_nat_def split: sum.splits)
  then show ?thesis using l3 t3 v3 by blast
qed

lemma rd_of_take_drop:
  "take n (drop p buf) = xs \<Longrightarrow> length xs = n \<Longrightarrow> j < n \<Longrightarrow> rd buf (p + j) = xs ! j"
  by (metis rd_drop rd_from_take)

lemma valid_type_prefix:
  fixes t rest :: "byte list"
  assumes "valid_type t"
  defines "buf0 \<equiv> t @ 58 # rest"
  shows "skip_space buf0 0 = 0"
    "take (length t) ((trim_type buf0 0 (length t - 1))[length t := 0]) = t"
proof -
  from assms(1) obtain h tl where t: "t = h # tl" and h: "\<not> ISSPACE h"
    by (cases t) (auto simp: valid_type_def)
  show "skip_space buf0 0 = 0" using h by (simp add: skip_space_eq buf0_def t)
  have "rd buf0 (length t - 1) = last t"
    using assms(1) by (simp add: buf0_def rd_append valid_type_def last_conv_nth)
  then have "\<not> ISSPACE (rd buf0 (length t - 1))" using assms(1) by (simp add: valid_type_def)
  then have "trim_type buf0 0 (length t - 1) = buf0" by (rule trim_type_id)
  then show "take (length t) ((trim_type buf0 0 (length t - 1))[length t := 0]) = t"
    by (simp add: buf0_def)
qed

lemma valid_type_chars: "valid_type t \<Longrightarrow> 58 \<notin> set t" "valid_type t \<Longrightarrow> 0 \<notin> set t"
  by (simp_all add: valid_type_def)

lemma decode_plain:
  assumes t: "valid_type t" and m: "m \<noteq> []" "\<not> ISSPACE (hd m)" "0 \<notin> set m"
  shows "str_parse_line (t @ [58, 32] @ m) =
         Inr (t, filter (\<lambda>c. c \<noteq> 1) m, int (length (filter (\<lambda>c. c \<noteq> 1) m)))"
proof -
  note v = valid_type_prefix[OF t, of "[32] @ m"] valid_type_chars[OF t]
  have ws: "\<forall>c\<in>set [32]. ISSPACE c" by (simp add: ISSPACE_def)
  have "cstr t = t" using v(4) by (rule cstr_no_nul)
  then show ?thesis
    using parse_plain_line[OF v(3) v(4) ws m] v(1,2) by simp
qed

lemma decode_b64:
  assumes t: "valid_type t" and m: "m \<noteq> []" "\<not> ISSPACE (hd m)" "0 \<notin> set m"
    and tx: "filter (\<lambda>c. c \<noteq> 1) m = b64_text v"
  shows "str_parse_line (t @ [58, 58, 32] @ m) = Inr (t, v, int (length v))"
proof -
  note vt = valid_type_prefix[OF t, of "58 # [32] @ m"] valid_type_chars[OF t]
  have ws: "\<forall>c\<in>set [32]. ISSPACE c" by (simp add: ISSPACE_def)
  let ?buf0 = "t @ 58 # 58 # [32] @ m"
  let ?buf2 = "(trim_type ?buf0 0 (length t - 1))[length t := 0]"
  let ?s3 = "length t + 2 + length [32::byte]"
  from parse_b64_line[OF vt(3) vt(4) ws m] obtain buf3 where
    l3: "length buf3 = length ?buf0" and
    t3: "take ?s3 buf3 = take ?s3 ?buf2" and
    v3: "take (length (b64_text v)) (drop ?s3 buf3) = b64_text v" and
    sp: "str_parse_line ?buf0 =
            (case b64_loop buf3 (?s3 + length (b64_text v)) ?s3 ?s3 0 of
               Inl e \<Rightarrow> Inl e
             | Inr (buf4, vlen) \<Rightarrow>
                 Inr (cstr (drop 0 (buf4[?s3 + nat vlen := 0])),
                      take (nat vlen) (drop ?s3 (buf4[?s3 + nat vlen := 0])), vlen))"
    unfolding tx vt(1) by blast
  have a1: "\<forall>j<length (b64_text v). rd buf3 (?s3 + j) = b64_text v ! j"
    using rd_of_take_drop[OF v3] by simp
  from b64_loop_decodes[OF a1 order_refl refl, of 0] obtain buf4 where
    b: "b64_loop buf3 (?s3 + length (b64_text v)) ?s3 ?s3 0 = Inr (buf4, int (length v))" and
    l4: "length buf4 = length buf3" and
    p4: "\<forall>i<?s3. rd buf4 i = rd buf3 i" and
    v4: "take (length v) (drop ?s3 buf4) = v" by auto
  let ?buf5 = "buf4[?s3 + length v := 0]"
  have val: "take (length v) (drop ?s3 ?buf5) = v"
    using v4 by (simp add: drop_update_swap)
  have "take ?s3 buf4 = take ?s3 buf3" using l4 p4 by (rule rd_eq_take)
  then have "take ?s3 ?buf5 = take ?s3 ?buf2" using t3 by simp
  then have "take (Suc (length t)) (take ?s3 ?buf5) = take (Suc (length t)) (take ?s3 ?buf2)"
    by simp
  then have t5: "take (Suc (length t)) ?buf5 = take (Suc (length t)) ?buf2"
    by (simp add: min_def)
  have "take (Suc (length t)) ?buf2 = t @ [0]"
    using vt(2) by (simp add: take_Suc_conv_app_nth)
  then have "take (Suc (length t)) ?buf5 = t @ [0]" using t5 by simp
  moreover have "length ?buf5 = length ?buf0" using l4 l3 by simp
  ultimately have "?buf5 = t @ 0 # drop (Suc (length t)) ?buf5"
    by (metis append_take_drop_id append.assoc append_Cons append_Nil)
  then have "cstr ?buf5 = t" using cstr_append_nul[OF vt(4)] by metis
  then show ?thesis using sp b val by simp
qed

lemma length4: "length g = 4 \<Longrightarrow> \<exists>a b c d. g = [a, b, c, d]"
  by (cases g; simp; rename_tac x xs; case_tac xs; simp; rename_tac y ys; case_tac ys; simp;
      rename_tac z zs; case_tac zs; simp)

lemma b64_loop_groups:
  assumes "\<forall>g\<in>set gs. length g = 4 \<and> (\<forall>c\<in>set g. b64_char c)"
    "take (length (concat gs)) (drop p buf) = concat gs"
    "byte \<le> p" "p + length (concat gs) \<le> stop"
  shows "\<exists>buf'. b64_loop buf stop p byte vlen =
           b64_loop buf' stop (p + 4 * length gs) (byte + 3 * length gs) (vlen + 3 * int (length gs))
         \<and> length buf' = length buf
         \<and> drop (p + 4 * length gs) buf' = drop (p + 4 * length gs) buf"
  using assms
proof (induction gs arbitrary: buf p byte vlen)
  case Nil
  then show ?case by auto
next
  case (Cons g gs)
  from Cons(2) obtain a b c d where g: "g = [a, b, c, d]" using length4[of g] by auto
  have ok: "b64_char a" "b64_char b" "b64_char c" "b64_char d" using Cons(2) g by auto
  let ?n = "length (concat gs)"
  have e: "length (concat (g # gs)) = 4 + ?n" using g by simp
  have tk: "take (4 + ?n) (drop p buf) = a # b # c # d # concat gs"
    using Cons(3)[unfolded e] g by simp
  have r: "rd buf p = a" "rd buf (p + 1) = b" "rd buf (p + 2) = c" "rd buf (p + 3) = d"
    using rd_of_take_drop[OF tk, of 0] rd_of_take_drop[OF tk, of 1]
      rd_of_take_drop[OF tk, of 2] rd_of_take_drop[OF tk, of 3] by simp_all
  have r': "rd buf (Suc p) = b" "rd buf (Suc (Suc p)) = c" using r by simp_all
  have ps: "p < stop" using Cons(5) g by simp
  let ?buf1 = "buf[byte := dec0 a b, byte + 1 := dec1 b c, byte + 2 := dec2 c d]"
  have step: "b64_loop buf stop p byte vlen = b64_loop ?buf1 stop (p + 4) (byte + 3) (vlen + 3)"
    using b64_loop_full[OF ps Cons(4), of buf vlen] ok by (simp add: r r' b64_char_def)
  have d1: "drop (p + 4) ?buf1 = drop (p + 4) buf" using Cons(4) by simp
  have "take ?n (drop (p + 4) buf) = drop 4 (take (4 + ?n) (drop p buf))"
    by (simp add: drop_take add.commute)
  then have a2: "take ?n (drop (p + 4) ?buf1) = concat gs" using tk d1 by simp
  have a1: "\<forall>g\<in>set gs. length g = 4 \<and> (\<forall>c\<in>set g. b64_char c)" using Cons(2) by simp
  have a3: "byte + 3 \<le> p + 4" using Cons(4) by simp
  have a4: "p + 4 + ?n \<le> stop" using Cons(5) g by simp
  from Cons(1)[OF a1 a2 a3 a4, of "vlen + 3"] obtain buf' where
    b: "b64_loop ?buf1 stop (p + 4) (byte + 3) (vlen + 3) =
        b64_loop buf' stop (p + 4 + 4 * length gs) (byte + 3 + 3 * length gs)
          (vlen + 3 + 3 * int (length gs))"
    and bl: "length buf' = length ?buf1"
    and bd: "drop (p + 4 + 4 * length gs) buf' = drop (p + 4 + 4 * length gs) ?buf1" by blast
  have "drop (p + 4 + 4 * length gs) ?buf1 = drop (p + 4 + 4 * length gs) buf"
    using Cons(4) by simp
  then show ?case using step b bl bd by (auto simp: algebra_simps)
qed

lemma b64_vlen_general:
  fixes ty ws m :: "byte list"
  assumes ty: "58 \<notin> set ty" "0 \<notin> set ty" and ws: "\<forall>c\<in>set ws. ISSPACE c"
    and m: "m \<noteq> []" "\<not> ISSPACE (hd m)" "0 \<notin> set m"
    and gs: "\<forall>g\<in>set gs. length g = 4 \<and> (\<forall>c\<in>set g. b64_char c)"
    and tx: "filter (\<lambda>c. c \<noteq> CONTINUED_LINE_MARKER) m = concat gs @ tail"
  shows "(tail = [] \<longrightarrow>
            (\<exists>t v. str_parse_line (ty @ [58, 58] @ ws @ m) = Inr (t, v, 3 * int (length gs))))
       \<and> (\<forall>a b rest. tail = a # b # 61 # rest \<and> b64_char a \<and> b64_char b \<longrightarrow>
            (\<exists>t v. str_parse_line (ty @ [58, 58] @ ws @ m) = Inr (t, v, 3 * int (length gs) + 1)))
       \<and> (\<forall>a b c rest. tail = a # b # c # 61 # rest \<and> b64_char a \<and> b64_char b \<and> b64_char c \<longrightarrow>
            (\<exists>t v. str_parse_line (ty @ [58, 58] @ ws @ m) = Inr (t, v, 3 * int (length gs) + 2)))"
proof -
  let ?buf0 = "ty @ 58 # 58 # ws @ m"
  let ?s3 = "length ty + 2 + length ws"
  let ?text = "concat gs @ tail"
  let ?k = "length gs"
  have tx': "filter (\<lambda>c. c \<noteq> 1) m = ?text" using tx by (simp add: CONTINUED_LINE_MARKER_def)
  from parse_b64_line[OF ty ws m] obtain buf3 where
    v3: "take (length ?text) (drop ?s3 buf3) = ?text" and
    sp: "str_parse_line ?buf0 =
            (case b64_loop buf3 (?s3 + length ?text) ?s3 ?s3 0 of
               Inl e \<Rightarrow> Inl e
             | Inr (buf4, vlen) \<Rightarrow>
                 Inr (cstr (drop (skip_space ?buf0 0) (buf4[?s3 + nat vlen := 0])),
                      take (nat vlen) (drop ?s3 (buf4[?s3 + nat vlen := 0])), vlen))"
    unfolding tx' by blast
  have lg: "length (concat gs) = 4 * ?k" using gs by (induction gs) auto
  have "take (length (concat gs)) (take (length ?text) (drop ?s3 buf3)) = concat gs"
    unfolding v3 by simp
  then have g3: "take (length (concat gs)) (drop ?s3 buf3) = concat gs" by (simp add: min_def)
  from b64_loop_groups[OF gs g3 order_refl, of "?s3 + length ?text" 0] obtain buf' where
    b: "b64_loop buf3 (?s3 + length ?text) ?s3 ?s3 0 =
        b64_loop buf' (?s3 + length ?text) (?s3 + 4 * ?k) (?s3 + 3 * ?k) (3 * int ?k)"
    and bd: "drop (?s3 + 4 * ?k) buf' = drop (?s3 + 4 * ?k) buf3" by auto
  have "drop (4 * ?k) (take (length ?text) (drop ?s3 buf3)) = tail"
    unfolding v3 using lg by simp
  then have "take (length tail) (drop (?s3 + 4 * ?k) buf3) = tail"
    using lg by (simp add: drop_take add.commute)
  then have tl: "take (length tail) (drop (?s3 + 4 * ?k) buf') = tail" using bd by simp
  have le: "?s3 + 3 * ?k \<le> ?s3 + 4 * ?k" by simp
  have stop: "?s3 + length ?text = ?s3 + 4 * ?k + length tail" using lg by simp
  have c1: "\<exists>t v. str_parse_line ?buf0 = Inr (t, v, 3 * int ?k)" if "tail = []"
  proof -
    have "b64_loop buf' (?s3 + length ?text) (?s3 + 4 * ?k) (?s3 + 3 * ?k) (3 * int ?k)
          = Inr (buf', 3 * int ?k)"
      using that lg by (intro b64_loop_stop) simp
    then show ?thesis using sp b by simp
  qed
  have c2: "\<exists>t v. str_parse_line ?buf0 = Inr (t, v, 3 * int ?k + 1)"
    if "tail = a # b # 61 # rest" "b64_char a" "b64_char b" for a b rest
  proof -
    have r: "rd buf' (?s3 + 4 * ?k) = a" "rd buf' (?s3 + 4 * ?k + 1) = b"
      "rd buf' (?s3 + 4 * ?k + 2) = 61"
      using rd_of_take_drop[OF tl, of 0] rd_of_take_drop[OF tl, of 1]
        rd_of_take_drop[OF tl, of 2] that(1) by simp_all
    have ps: "?s3 + 4 * ?k < ?s3 + length ?text" using stop that(1) by simp
    from b64_loop_pad3[OF ps le, of buf' "3 * int ?k"] r that(2,3)
    obtain bufx where "b64_loop buf' (?s3 + length ?text) (?s3 + 4 * ?k) (?s3 + 3 * ?k) (3 * int ?k)
          = Inr (bufx, 3 * int ?k + 1)"
      by (auto simp: b64_char_def)
    then show ?thesis using sp b by simp
  qed
  have c3: "\<exists>t v. str_parse_line ?buf0 = Inr (t, v, 3 * int ?k + 2)"
    if "tail = a # b # c # 61 # rest" "b64_char a" "b64_char b" "b64_char c" for a b c rest
  proof -
    have r: "rd buf' (?s3 + 4 * ?k) = a" "rd buf' (?s3 + 4 * ?k + 1) = b"
      "rd buf' (?s3 + 4 * ?k + 2) = c" "rd buf' (?s3 + 4 * ?k + 3) = 61"
      using rd_of_take_drop[OF tl, of 0] rd_of_take_drop[OF tl, of 1]
        rd_of_take_drop[OF tl, of 2] rd_of_take_drop[OF tl, of 3] that(1) by simp_all
    have ps: "?s3 + 4 * ?k < ?s3 + length ?text" using stop that(1) by simp
    from b64_loop_pad4[OF ps le, of buf' "3 * int ?k"] r that(2,3,4)
    obtain bufx where "b64_loop buf' (?s3 + length ?text) (?s3 + 4 * ?k) (?s3 + 3 * ?k) (3 * int ?k)
          = Inr (bufx, 3 * int ?k + 2)"
      by (auto simp: b64_char_def)
    then show ?thesis using sp b by simp
  qed
  show ?thesis using c1 c2 c3 by simp
qed

lemma b64_char_simps:
  "b64_char c = (c \<noteq> 61 \<and> c AND 0x80 = 0 \<and> b642nib ! unat (c AND 0x7f) \<le> 0x3f)"
  by (auto simp: b64_char_def bad_b64_def)

section \<open>The encoder, step by step\<close>

lemma wf_putc [simp]: "wf_out ob \<Longrightarrow> wf_out (putc c ob)"
  by (cases ob) (auto simp: wf_out_def putc_def)

lemma outstr_putc: "wf_out ob \<Longrightarrow> outstr (putc c ob) = outstr ob @ [c]"
  by (cases ob) (auto simp: wf_out_def putc_def outstr_def take_Suc_conv_app_nth)

lemma snd_putc [simp]: "snd (putc c ob) = Suc (snd ob)"
  by (cases ob) (simp add: putc_def)

lemma length_putc: "wf_out ob \<Longrightarrow> length (fst (putc c ob)) = max (length (fst ob)) (Suc (snd ob))"
  by (cases ob) (auto simp: wf_out_def putc_def)

lemma length_outstr: "wf_out ob \<Longrightarrow> length (outstr ob) = snd ob"
  by (simp add: wf_out_def outstr_def)

lemma writes_refl: "wf_out ob \<Longrightarrow> writes ob [] ob"
  by (simp add: writes_def wf_out_def)

lemma writes_putc: "wf_out ob \<Longrightarrow> writes ob [c] (putc c ob)"
  by (simp add: writes_def outstr_putc length_putc)

lemma writes_wf: "writes ob xs ob' \<Longrightarrow> wf_out ob'"
  by (simp add: writes_def)

lemma writes_snd: "wf_out ob \<Longrightarrow> writes ob xs ob' \<Longrightarrow> snd ob' = snd ob + length xs"
  using length_outstr[of ob] length_outstr[of ob'] by (simp add: writes_def)

lemma writes_trans:
  assumes "wf_out a" "writes a xs b" "writes b ys c"
  shows "writes a (xs @ ys) c"
proof -
  have "snd b = snd a + length xs" using assms(1,2) by (rule writes_snd)
  moreover have "snd c = snd b + length ys" using writes_wf[OF assms(2)] assms(3) by (rule writes_snd)
  ultimately show ?thesis using assms(2,3) by (auto simp: writes_def)
qed

lemma fold_put_out:
  assumes "wf_out ob"
  shows "\<exists>ob'. fold_put c (ob, len) = (ob', fold_col len 1) \<and> writes ob (fold_text len [c]) ob'"
proof (cases "len > LDIF_LINE_WIDTH")
  case True
  have a: "writes ob [10] (putc 10 ob)" using assms by (rule writes_putc)
  have b: "writes (putc 10 ob) [32] (putc 32 (putc 10 ob))"
    using assms by (intro writes_putc wf_putc)
  have c: "writes (putc 32 (putc 10 ob)) [c] (putc c (putc 32 (putc 10 ob)))"
    using assms by (intro writes_putc wf_putc)
  have ab: "writes ob ([10] @ [32]) (putc 32 (putc 10 ob))" using assms a b by (rule writes_trans)
  have "writes ob (([10] @ [32]) @ [c]) (putc c (putc 32 (putc 10 ob)))"
    using assms ab c by (rule writes_trans)
  then show ?thesis using True by (simp add: fold_put_def)
next
  case False
  then show ?thesis using writes_putc[OF assms, of c] by (simp add: fold_put_def)
qed

lemma fold_text_append:
  "fold_text len (xs @ ys) = fold_text len xs @ fold_text (fold_col len (length xs)) ys"
  by (induction xs arbitrary: len) auto

lemma fold_col_add: "fold_col len (a + b) = fold_col (fold_col len a) b"
  by (induction a arbitrary: len) auto

lemma fold_text_Cons:
  "fold_text len (c # cs) = fold_text len [c] @ fold_text (fold_col len 1) cs"
  by simp

lemma fold_col_Suc': "fold_col len (Suc n) = fold_col (fold_col len 1) n"
  by simp

lemma fold_text4:
  "fold_text len (a # b # c # d # xs) = fold_text len [a, b, c, d] @ fold_text (fold_col len 4) xs"
proof -
  have l4: "length [a, b, c, d] = 4" by simp
  have "fold_text len ([a, b, c, d] @ xs)
        = fold_text len [a, b, c, d] @ fold_text (fold_col len (length [a, b, c, d])) xs"
    by (rule fold_text_append)
  then show ?thesis unfolding l4 by (simp only: append_Cons append_Nil)
qed

text \<open>The plain loop.\<close>

lemma plain_loop_flag:
  "fst (plain_loop val st) = (\<exists>b\<in>set val. \<not> printable b)"
  by (induction val arbitrary: st) (auto simp: printable_def)

lemma plain_loop_out:
  "wf_out ob \<Longrightarrow>
   \<exists>ob'. plain_loop val (ob, len) =
           (\<exists>b\<in>set val. \<not> printable b, ob', fold_col len (length (takeWhile printable val)))
         \<and> writes ob (fold_text len (takeWhile printable val)) ob'"
proof (induction val arbitrary: ob len)
  case Nil
  then show ?case by (simp add: writes_refl)
next
  case (Cons b bs)
  show ?case
  proof (cases "printable b")
    case False
    then show ?thesis using Cons(2) by (auto simp: printable_def writes_refl)
  next
    case True
    from fold_put_out[OF Cons(2), of b len] obtain ob1 where
      f: "fold_put b (ob, len) = (ob1, fold_col len 1)" and w1: "writes ob (fold_text len [b]) ob1"
      by blast
    from Cons(1)[OF writes_wf[OF w1], of "fold_col len 1"] obtain ob' where
      p: "plain_loop bs (ob1, fold_col len 1) =
           (\<exists>b\<in>set bs. \<not> printable b, ob',
            fold_col (fold_col len 1) (length (takeWhile printable bs)))"
      and w: "writes ob1 (fold_text (fold_col len 1) (takeWhile printable bs)) ob'" by blast
    have tw: "takeWhile printable (b # bs) = b # takeWhile printable bs" using True by simp
    have "plain_loop (b # bs) (ob, len) = plain_loop bs (ob1, fold_col len 1)"
      using True f by (simp add: printable_def)
    moreover have "fold_text len (b # takeWhile printable bs)
        = fold_text len [b] @ fold_text (fold_col len 1) (takeWhile printable bs)"
      by (rule fold_text_Cons)
    then have "writes ob (fold_text len (takeWhile printable (b # bs))) ob'"
      unfolding tw using writes_trans[OF Cons(2) w1 w] by simp
    moreover have "fold_col len (length (takeWhile printable (b # bs)))
        = fold_col (fold_col len 1) (length (takeWhile printable bs))"
      unfolding tw by simp
    ultimately show ?thesis using p True by auto
  qed
qed

lemma put_type_out:
  "wf_out ob \<Longrightarrow> \<exists>ob'. put_type t (ob, len) = (ob', len + length (cstr t)) \<and> writes ob (cstr t) ob'"
proof (induction t arbitrary: ob len)
  case Nil
  then show ?case by (simp add: cstr_def writes_refl)
next
  case (Cons c cs)
  show ?case
  proof (cases "c = 0")
    case True
    then show ?thesis using Cons(2) by (simp add: cstr_def writes_refl)
  next
    case False
    from Cons(1)[OF wf_putc[OF Cons(2)], of c "len + 1"] obtain ob' where
      p: "put_type cs (putc c ob, len + 1) = (ob', len + 1 + length (cstr cs))"
      and w: "writes (putc c ob) (cstr cs) ob'" by auto
    have "writes ob ([c] @ cstr cs) ob'"
      using Cons(2) writes_putc[OF Cons(2)] w by (rule writes_trans)
    then show ?thesis using False p by (simp add: cstr_def)
  qed
qed

lemma digit_shift: "digit i (push_bit 6 bits) = digit (Suc i) bits"
  by (simp add: digit_def push_bit_push_bit add.commute)

lemma put_digits_out:
  "wf_out ob \<Longrightarrow>
   \<exists>ob'. put_digits n bits (ob, len) = (ob', fold_col len n)
       \<and> writes ob (fold_text len (map (\<lambda>i. digit i bits) [0..<n])) ob'"
proof (induction n arbitrary: bits ob len)
  case 0
  then show ?case by (simp add: writes_refl)
next
  case (Suc n)
  have d0: "nib2b64 ! unat (drop_bit 18 (bits AND 0xfc0000)) = digit 0 bits"
    by (simp add: digit_def)
  from fold_put_out[OF Suc(2), of "digit 0 bits" len] obtain ob1 where
    f: "fold_put (digit 0 bits) (ob, len) = (ob1, fold_col len 1)"
    and w1: "writes ob (fold_text len [digit 0 bits]) ob1" by blast
  from Suc(1)[OF writes_wf[OF w1], of "push_bit 6 bits" "fold_col len 1"] obtain ob' where
    p: "put_digits n (push_bit 6 bits) (ob1, fold_col len 1) = (ob', fold_col (fold_col len 1) n)"
    and w: "writes ob1 (fold_text (fold_col len 1) (map (\<lambda>i. digit i (push_bit 6 bits)) [0..<n])) ob'"
    by blast
  have m: "map (\<lambda>i. digit i bits) [0..<Suc n] = digit 0 bits # map (\<lambda>i. digit (Suc i) bits) [0..<n]"
    by (rule map_upt_Suc)
  have m': "map (\<lambda>i. digit i (push_bit 6 bits)) [0..<n] = map (\<lambda>i. digit (Suc i) bits) [0..<n]"
    by (simp add: digit_shift)
  have "put_digits (Suc n) bits (ob, len) = put_digits n (push_bit 6 bits) (ob1, fold_col len 1)"
    unfolding put_digits.simps d0 f ..
  then have "put_digits (Suc n) bits (ob, len) = (ob', fold_col len (Suc n))"
    unfolding fold_col_Suc' p .
  moreover have "fold_text len (digit 0 bits # map (\<lambda>i. digit (Suc i) bits) [0..<n])
        = fold_text len [digit 0 bits] @ fold_text (fold_col len 1) (map (\<lambda>i. digit (Suc i) bits) [0..<n])"
    by (rule fold_text_Cons)
  then have "writes ob (fold_text len (map (\<lambda>i. digit i bits) [0..<Suc n])) ob'"
    unfolding m using writes_trans[OF Suc(2) w1 w[unfolded m']] by simp
  ultimately show ?case by blast
qed

lemma digits4: "map (\<lambda>i. digit i bits) [0..<4] = [digit 0 bits, digit 1 bits, digit 2 bits, digit 3 bits]"
  by (simp add: upt_rec numeral_2_eq_2 numeral_3_eq_3)

lemma put_digits4:
  "wf_out ob \<Longrightarrow>
   \<exists>ob'. put_digits 4 bits (ob, len) = (ob', fold_col len 4)
       \<and> writes ob (fold_text len [digit 0 bits, digit 1 bits, digit 2 bits, digit 3 bits]) ob'"
  using put_digits_out[of ob 4 bits len] by (simp only: digits4)

lemma put_pad_out:
  "wf_out ob \<Longrightarrow> n \<le> snd ob \<Longrightarrow>
   outstr (put_pad n ob) = take (snd ob - n) (outstr ob) @ replicate n 61
   \<and> snd (put_pad n ob) = snd ob \<and> length (fst (put_pad n ob)) = length (fst ob)"
proof (induction n arbitrary: ob)
  case 0
  then show ?case by (simp add: outstr_def)
next
  case (Suc n)
  obtain mem pos where ob: "ob = (mem, pos)" by (cases ob)
  let ?ob' = "(mem[pos - Suc n := 61], pos)"
  have w: "wf_out ?ob'" using Suc(2) by (simp add: wf_out_def ob)
  have n: "n \<le> snd ?ob'" using Suc(3) by (simp add: ob)
  note ih = Suc(1)[OF w n]
  have pl: "pos \<le> length mem" using Suc(2) by (simp add: wf_out_def ob)
  have "take (pos - n) (outstr ?ob') = take (pos - n) ((take pos mem)[pos - Suc n := 61])"
    by (simp add: outstr_def take_update_swap)
  also have "\<dots> = (take (pos - n) (take pos mem))[pos - Suc n := 61]"
    by (simp add: take_update_swap)
  also have "\<dots> = (take (pos - n) mem)[pos - Suc n := 61]" by (simp add: min_def)
  also have "\<dots> = take (pos - Suc n) mem @ [61]"
  proof -
    have a: "pos - n = Suc (pos - Suc n)" using Suc(3) by (simp add: ob)
    have b: "pos - Suc n < length mem" using Suc(3) pl by (simp add: ob)
    have c: "length (take (pos - Suc n) mem) = pos - Suc n" using b by simp
    have "(take (pos - Suc n) mem @ [mem ! (pos - Suc n)])[length (take (pos - Suc n) mem) := 61]
          = take (pos - Suc n) mem @ [61]" by (rule list_update_length)
    then show ?thesis unfolding a c using b by (simp add: take_Suc_conv_app_nth)
  qed
  finally have "take (pos - n) (outstr ?ob') = take (pos - Suc n) (outstr ob) @ [61]"
    by (simp add: outstr_def ob min_def)
  then show ?case using ih by (simp add: ob replicate_app_Cons_same)
qed

lemma b64_body_out:
  "wf_out ob \<Longrightarrow>
   \<exists>ob1. (case b64_groups val (ob, len) of (rest, st8) \<Rightarrow> b64_tail rest st8)
          = (put_pad (pad_of val) ob1, fold_col len (length (b64_raw val)))
        \<and> writes ob (fold_text len (b64_raw val)) ob1"
proof (induction val arbitrary: ob len rule: b64_raw.induct)
  case (1 b0 b1 b2 rest)
  from put_digits4[OF 1(2), of "bits_of b0 b1 b2" len] obtain ob' where
    p: "put_digits 4 (bits_of b0 b1 b2) (ob, len) = (ob', fold_col len 4)"
    and w: "writes ob (fold_text len
        [digit 0 (bits_of b0 b1 b2), digit 1 (bits_of b0 b1 b2), digit 2 (bits_of b0 b1 b2),
         digit 3 (bits_of b0 b1 b2)]) ob'" by blast
  from 1(1)[OF writes_wf[OF w], of "fold_col len 4"] obtain ob1 where
    r: "(case b64_groups rest (ob', fold_col len 4) of (rest, st8) \<Rightarrow> b64_tail rest st8)
          = (put_pad (pad_of rest) ob1, fold_col (fold_col len 4) (length (b64_raw rest)))"
    and w1: "writes ob' (fold_text (fold_col len 4) (b64_raw rest)) ob1" by blast
  have pd: "pad_of (b0 # b1 # b2 # rest) = pad_of rest" by (simp add: pad_of_def)
  have ft: "fold_text len (b64_raw (b0 # b1 # b2 # rest)) =
        fold_text len [digit 0 (bits_of b0 b1 b2), digit 1 (bits_of b0 b1 b2),
          digit 2 (bits_of b0 b1 b2), digit 3 (bits_of b0 b1 b2)]
        @ fold_text (fold_col len 4) (b64_raw rest)"
    unfolding b64_raw.simps by (rule fold_text4)
  have "length (b64_raw (b0 # b1 # b2 # rest)) = 4 + length (b64_raw rest)" by simp
  then have fc: "fold_col len (length (b64_raw (b0 # b1 # b2 # rest)))
       = fold_col (fold_col len 4) (length (b64_raw rest))"
    by (simp only: fold_col_add)
  have "(case b64_groups (b0 # b1 # b2 # rest) (ob, len) of (rest, st8) \<Rightarrow> b64_tail rest st8)
        = (put_pad (pad_of rest) ob1, fold_col (fold_col len 4) (length (b64_raw rest)))"
    unfolding b64_groups.simps p r ..
  moreover have "writes ob (fold_text len (b64_raw (b0 # b1 # b2 # rest))) ob1"
    unfolding ft using 1(2) w w1 by (rule writes_trans)
  ultimately show ?case unfolding pd fc by blast
next
  case (2 b0 b1)
  from put_digits4[OF 2, of "bits_of b0 b1 0" len] obtain ob' where
    p: "put_digits 4 (bits_of b0 b1 0) (ob, len) = (ob', fold_col len 4)"
    and w: "writes ob (fold_text len
        [digit 0 (bits_of b0 b1 0), digit 1 (bits_of b0 b1 0), digit 2 (bits_of b0 b1 0),
         digit 3 (bits_of b0 b1 0)]) ob'" by blast
  have l4: "length (b64_raw [b0, b1]) = 4" by simp
  have pd: "pad_of [b0, b1] = 1" by (simp add: pad_of_def)
  have "(case b64_groups [b0, b1] (ob, len) of (rest, st8) \<Rightarrow> b64_tail rest st8)
        = (put_pad 1 ob', fold_col len 4)"
    using p by (simp add: b64_tail_def Let_def del: put_digits.simps put_pad.simps)
  then show ?case
    apply (simp only: l4 pd)
    apply (simp only: b64_raw.simps)
    using w apply blast
    done
next
  case (3 b0)
  from put_digits4[OF 3, of "bits_of b0 0 0" len] obtain ob' where
    p: "put_digits 4 (bits_of b0 0 0) (ob, len) = (ob', fold_col len 4)"
    and w: "writes ob (fold_text len
        [digit 0 (bits_of b0 0 0), digit 1 (bits_of b0 0 0), digit 2 (bits_of b0 0 0),
         digit 3 (bits_of b0 0 0)]) ob'" by blast
  have l4: "length (b64_raw [b0]) = 4" by simp
  have pd: "pad_of [b0] = 2" by (simp add: pad_of_def)
  have "(case b64_groups [b0] (ob, len) of (rest, st8) \<Rightarrow> b64_tail rest st8)
        = (put_pad 2 ob', fold_col len 4)"
    using p by (simp add: b64_tail_def Let_def numeral_2_eq_2 del: put_digits.simps put_pad.simps)
  then show ?case
    apply (simp only: l4 pd)
    apply (simp only: b64_raw.simps)
    using w apply blast
    done
next
  case 4
  then show ?case by (simp add: b64_tail_def pad_of_def writes_refl)
qed

lemma wf_empty [simp]: "wf_out ([], 0)" by (simp add: wf_out_def)
lemma outstr_empty [simp]: "outstr ([], 0) = []" by (simp add: outstr_def)

lemma length_value_bytes [simp]: "length (value_bytes val vlen) = nat vlen"
  by (simp add: value_bytes_def)

lemma value_bytes_take: "nat vlen \<le> length val \<Longrightarrow> value_bytes val vlen = take (nat vlen) val"
  by (rule nth_equalityI) (simp_all add: value_bytes_def rd_def)

lemma value_bytes_all [simp]: "value_bytes val (int (length val)) = val"
  by (simp add: value_bytes_take)

lemma value_bytes_neg: "vlen \<le> 0 \<Longrightarrow> value_bytes val vlen = []"
  by (simp add: value_bytes_def)

lemma is_b64_iff: "is_b64 val vlen = (first_byte_b64 val \<or> (\<exists>b\<in>set (value_bytes val vlen). \<not> printable b))"
  by (simp add: is_b64_def plain_loop_flag)

lemma encoder_head:
  "\<exists>out1 out4 len4.
      put_type t (([], 0), 0) = (out1, length (cstr t))
    \<and> writes ([], 0) (cstr t) out1
    \<and> (if first_byte_b64 val then (True, putc 32 (putc 58 out1), Suc (length (cstr t)))
        else plain_loop (value_bytes val vlen) (putc 32 (putc 58 out1), Suc (length (cstr t)))) = (is_b64 val vlen, out4, len4)
    \<and> writes (putc 32 (putc 58 out1)) (fold_text (Suc (length (cstr t))) (plain_attempt val vlen)) out4
    \<and> writes ([], 0) (cstr t @ [58, 32]) (putc 32 (putc 58 out1))
    \<and> writes ([], 0) (cstr t @ [58]) (putc 58 out1)"
proof -
  from put_type_out[OF wf_empty, of t 0] obtain out1 where
    p: "put_type t (([], 0), 0) = (out1, length (cstr t))" and w1: "writes ([], 0) (cstr t) out1"
    by auto
  have wf1: "wf_out out1" using w1 by (rule writes_wf)
  have w2: "writes ([], 0) (cstr t @ [58]) (putc 58 out1)"
    using wf_empty w1 writes_putc[OF wf1] by (rule writes_trans)
  have wf2: "wf_out (putc 58 out1)" using wf1 by simp
  have w3: "writes ([], 0) ((cstr t @ [58]) @ [32]) (putc 32 (putc 58 out1))"
    using wf_empty w2 writes_putc[OF wf2] by (rule writes_trans)
  have wf3: "wf_out (putc 32 (putc 58 out1))" using wf2 by simp
  show ?thesis
  proof (cases "first_byte_b64 val")
    case True
    then show ?thesis using p w1 w2 w3 wf3
      by (intro exI[of _ out1] exI[of _ "putc 32 (putc 58 out1)"] exI[of _ "Suc (length (cstr t))"])
         (simp add: is_b64_iff plain_attempt_def writes_refl)
  next
    case False
    from plain_loop_out[OF wf3, of "value_bytes val vlen" "Suc (length (cstr t))"] obtain out4 where
      pl: "plain_loop (value_bytes val vlen) (putc 32 (putc 58 out1), Suc (length (cstr t))) =
           (\<exists>b\<in>set (value_bytes val vlen). \<not> printable b, out4,
            fold_col (Suc (length (cstr t))) (length (takeWhile printable (value_bytes val vlen))))"
      and w4: "writes (putc 32 (putc 58 out1)) (fold_text (Suc (length (cstr t))) (takeWhile printable (value_bytes val vlen))) out4"
      by blast
    show ?thesis using False p w1 w2 w3 pl w4
      by (intro exI[of _ out1] exI[of _ out4]
            exI[of _ "fold_col (Suc (length (cstr t))) (length (takeWhile printable (value_bytes val vlen)))"])
         (simp add: is_b64_iff plain_attempt_def)
  qed
qed

lemma takeWhile_all_printable: "\<forall>b\<in>set val. printable b \<Longrightarrow> takeWhile printable val = val"
  by (induction val) auto

lemma put_type_and_value_plain:
  assumes "\<not> is_b64 val vlen"
  shows "writes ([], 0) (cstr t @ [58, 32] @ fold_text (Suc (length (cstr t))) (value_bytes val vlen) @ [10])
           (put_type_and_value ([], 0) t val vlen)"
proof -
  from encoder_head[of t val vlen] obtain out1 out4 len4 where
    p: "put_type t (([], 0), 0) = (out1, length (cstr t))" and
    a: "(if first_byte_b64 val then (True, putc 32 (putc 58 out1), Suc (length (cstr t)))
        else plain_loop (value_bytes val vlen) (putc 32 (putc 58 out1), Suc (length (cstr t)))) = (is_b64 val vlen, out4, len4)" and
    w4: "writes (putc 32 (putc 58 out1)) (fold_text (Suc (length (cstr t))) (plain_attempt val vlen)) out4" and
    w3: "writes ([], 0) (cstr t @ [58, 32]) (putc 32 (putc 58 out1))" by blast
  have pa: "plain_attempt val vlen = value_bytes val vlen"
    using assms by (simp add: is_b64_iff plain_attempt_def takeWhile_all_printable)
  have w: "writes ([], 0) ((cstr t @ [58, 32]) @ fold_text (Suc (length (cstr t))) (value_bytes val vlen)) out4"
    using wf_empty w3 w4[unfolded pa] by (rule writes_trans)
  have "writes ([], 0) (((cstr t @ [58, 32]) @ fold_text (Suc (length (cstr t))) (value_bytes val vlen)) @ [10]) (putc 10 out4)"
    using wf_empty w writes_putc[OF writes_wf[OF w]] by (rule writes_trans)
  moreover have "put_type_and_value ([], 0) t val vlen = putc 10 out4"
    using assms by (simp add: put_type_and_value_def p Let_def a)
  ultimately show ?thesis by simp
qed

lemma length_b64_raw: "length (b64_raw val) = 4 * ((length val + 2) div 3)"
proof (induction val rule: b64_raw.induct)
  case (1 b0 b1 b2 rest)
  have "(length (b0 # b1 # b2 # rest) + 2) div 3 = Suc ((length rest + 2) div 3)" by simp
  then show ?case using 1 by simp
qed auto

lemma pad_le_raw: "pad_of val \<le> length (b64_raw val)"
proof (cases val)
  case Nil
  then show ?thesis by (simp add: pad_of_def)
next
  case (Cons a list)
  then have "4 \<le> length (b64_raw val)" by (simp add: length_b64_raw)
  moreover have "pad_of val \<le> 2" by (simp add: pad_of_def)
  ultimately show ?thesis by simp
qed

lemma length_fold_text_ge: "length xs \<le> length (fold_text len xs)"
  by (induction xs arbitrary: len) (auto simp: le_SucI)

lemma take_append_diff:
  "k \<le> length ys \<Longrightarrow> take (length xs + length ys - k) (xs @ ys) = xs @ take (length ys - k) ys"
  by simp

lemma put_type_and_value_b64:
  fixes t val :: "byte list"
  assumes "is_b64 val vlen"
  defines "F \<equiv> fold_text (Suc (Suc (Suc (length (cstr t))))) (b64_raw (value_bytes val vlen))"
  defines "P \<equiv> (cstr t @ [58, 58, 32]) @ F"
  defines "A \<equiv> cstr t @ [58, 32] @ fold_text (Suc (length (cstr t))) (plain_attempt val vlen)"
  shows "outstr (put_type_and_value ([], 0) t val vlen)
           = (cstr t @ [58, 58, 32]) @ take (length F - pad_of (value_bytes val vlen)) F @ replicate (pad_of (value_bytes val vlen)) 61 @ [10]
       \<and> wf_out (put_type_and_value ([], 0) t val vlen)
       \<and> length (fst (put_type_and_value ([], 0) t val vlen)) = max (length A) (length P + 1)"
proof -
  let ?n = "length (cstr t)"
  from encoder_head[of t val vlen] obtain out1 out4 len4 where
    p: "put_type t (([], 0), 0) = (out1, ?n)" and
    a: "(if first_byte_b64 val then (True, putc 32 (putc 58 out1), Suc ?n)
        else plain_loop (value_bytes val vlen) (putc 32 (putc 58 out1), Suc ?n)) = (is_b64 val vlen, out4, len4)" and
    w4: "writes (putc 32 (putc 58 out1)) (fold_text (Suc ?n) (plain_attempt val vlen)) out4" and
    w3: "writes ([], 0) (cstr t @ [58, 32]) (putc 32 (putc 58 out1))" and
    w2: "writes ([], 0) (cstr t @ [58]) (putc 58 out1)" by blast
  have wA: "writes ([], 0) ((cstr t @ [58, 32]) @ fold_text (Suc ?n) (plain_attempt val vlen)) out4"
    using wf_empty w3 w4 by (rule writes_trans)
  then have oA: "outstr out4 = A" and wf4: "wf_out out4" and lA: "length (fst out4) = snd out4"
    by (simp_all add: writes_def A_def)
  have sA: "snd out4 = length A" using length_outstr[OF wf4] oA by simp
  have s2: "snd (putc 58 out1) = Suc ?n"
    using writes_snd[OF wf_empty w2] by simp
  let ?out5 = "(fst out4, Suc ?n)"
  have le: "Suc ?n \<le> length A" by (simp add: A_def)
  have wf5: "wf_out ?out5" using le lA sA by (simp add: wf_out_def)
  have "outstr ?out5 = take (Suc ?n) (take (snd out4) (fst out4))"
    using le sA by (simp add: outstr_def min_def)
  also have "\<dots> = take (Suc ?n) A" using oA by (simp add: outstr_def)
  also have "\<dots> = cstr t @ [58]" by (simp add: A_def)
  finally have o5: "outstr ?out5 = cstr t @ [58]" .
  let ?out7 = "putc 32 (putc 58 ?out5)"
  have w6: "writes ?out5 [58] (putc 58 ?out5)" using wf5 by (rule writes_putc)
  have w7: "writes ?out5 ([58] @ [32]) ?out7"
    using wf5 w6 writes_putc[OF wf_putc[OF wf5]] by (rule writes_trans)
  from b64_body_out[OF writes_wf[OF w7], of "value_bytes val vlen" "Suc (Suc (Suc ?n))"] obtain ob1 where
    b: "(case b64_groups (value_bytes val vlen) (?out7, Suc (Suc (Suc ?n))) of (rest, st8) \<Rightarrow> b64_tail rest st8)
          = (put_pad (pad_of (value_bytes val vlen)) ob1, fold_col (Suc (Suc (Suc ?n))) (length (b64_raw (value_bytes val vlen))))"
    and w8: "writes ?out7 (fold_text (Suc (Suc (Suc ?n))) (b64_raw (value_bytes val vlen))) ob1" by blast
  have w9: "writes ?out5 (([58] @ [32]) @ fold_text (Suc (Suc (Suc ?n))) (b64_raw (value_bytes val vlen))) ob1"
    using wf5 w7 w8 by (rule writes_trans)
  then have o1: "outstr ob1 = P" and wf1: "wf_out ob1"
    and l1: "length (fst ob1) = max (length A) (snd ob1)"
    using o5 lA sA by (simp_all add: writes_def P_def F_def)
  have s1: "snd ob1 = length P" using length_outstr[OF wf1] o1 by simp
  have "pad_of (value_bytes val vlen) \<le> length (b64_raw (value_bytes val vlen))" by (rule pad_le_raw)
  also have "\<dots> \<le> length F"
    using length_fold_text_ge[of "b64_raw (value_bytes val vlen)" "Suc (Suc (Suc ?n))"] by (simp add: F_def)
  finally have pF: "pad_of (value_bytes val vlen) \<le> length F" .
  then have pl: "pad_of (value_bytes val vlen) \<le> snd ob1" using s1 by (simp add: P_def)
  have tk: "take (length P - pad_of (value_bytes val vlen)) P
            = (cstr t @ [58, 58, 32]) @ take (length F - pad_of (value_bytes val vlen)) F"
  proof -
    have "take (length (cstr t @ [58, 58, 32]) + length F - pad_of (value_bytes val vlen)) ((cstr t @ [58, 58, 32]) @ F)
          = (cstr t @ [58, 58, 32]) @ take (length F - pad_of (value_bytes val vlen)) F"
      using pF by (rule take_append_diff)
    then show ?thesis by (simp only: P_def length_append)
  qed
  note pp = put_pad_out[OF wf1 pl]
  let ?out9 = "put_pad (pad_of (value_bytes val vlen)) ob1"
  have wf9: "wf_out ?out9" using pp wf1 by (simp add: wf_out_def)
  have s1': "snd out1 = ?n" using s2 by simp
  have b': "(case b64_groups (value_bytes val vlen) (?out7, Suc (Suc (Suc ?n))) of
               (rest, st8) \<Rightarrow> case b64_tail rest st8 of (out8, len8) \<Rightarrow> out8) = ?out9"
    using b by (simp add: split_def)
  have e: "put_type_and_value ([], 0) t val vlen = putc 10 ?out9"
    using assms(1) by (simp add: put_type_and_value_def p Let_def a s1' b')
  have "outstr (putc 10 ?out9)
        = ((cstr t @ [58, 58, 32]) @ take (length F - pad_of (value_bytes val vlen)) F) @ replicate (pad_of (value_bytes val vlen)) 61 @ [10]"
    unfolding tk[symmetric] using pp o1 s1 by (simp add: outstr_putc[OF wf9])
  moreover have "length (fst (putc 10 ?out9)) = max (length A) (length P + 1)"
    using pp l1 s1 by (simp add: length_putc[OF wf9])
  ultimately show ?thesis using wf9 by (simp add: e)
qed

lemma byte_all: "(\<forall>n<256. P (of_nat n :: byte)) \<Longrightarrow> P c"
proof -
  assume a: "\<forall>n<256. P (of_nat n :: byte)"
  have "unat c < 256" using unsigned_less[of c, where ?'a = nat] by simp
  then have "P (of_nat (unat c))" using a by blast
  then show ?thesis by simp
qed

lemma space_ascii_all: "list_all (\<lambda>n. ISSPACE (of_nat n) \<longrightarrow> isascii (of_nat n)) [0..<256]"
  by code_simp

lemma space_is_ascii: "ISSPACE c \<Longrightarrow> isascii c"
proof -
  have "\<forall>n<256. ISSPACE (of_nat n) \<longrightarrow> isascii (of_nat n)"
    using space_ascii_all by (simp add: list_all_iff)
  then have "ISSPACE c \<longrightarrow> isascii c" by (rule byte_all)
  then show "ISSPACE c \<Longrightarrow> isascii c" by simp
qed


lemma first_byte_b64_iff:
  "first_byte_b64 val = (val \<noteq> [] \<and> (ISSPACE (hd val) \<or> hd val = 58))"
proof (cases val)
  case Nil
  then show ?thesis by (simp add: first_byte_b64_def ISSPACE_def rd_def)
next
  case (Cons b bs)
  have "isascii 58" by (simp add: isascii_def)
  then show ?thesis using Cons space_is_ascii[of b] by (auto simp: first_byte_b64_def rd_def)
qed

lemma first_byte_b64_rd: "first_byte_b64 val = (ISSPACE (rd val 0) \<or> rd val 0 = 58)"
proof -
  have "isascii 58" by (simp add: isascii_def)
  then show ?thesis using space_is_ascii[of "rd val 0"] by (auto simp: first_byte_b64_def)
qed

lemma printable_not_newline: "printable c \<Longrightarrow> c \<noteq> 10"
  by (auto simp: printable_def isprint_def)

lemma strip_folds_Cons: "c \<noteq> 10 \<Longrightarrow> strip_folds (c # xs) = c # strip_folds xs"
  by (cases xs) auto

lemma strip_folds_fold_text: "10 \<notin> set xs \<Longrightarrow> strip_folds (fold_text len xs) = xs"
  by (induction xs arbitrary: len) (auto simp: strip_folds_Cons)

lemma fold_text_short: "len + length xs \<le> 77 \<Longrightarrow> fold_text len xs = xs"
  by (induction xs arbitrary: len) (auto simp: LDIF_LINE_WIDTH_def)

lemma encode_plain:
  "\<not> is_b64 val vlen \<Longrightarrow>
   encode t val vlen = cstr t @ [58, 32] @ fold_text (Suc (length (cstr t))) (value_bytes val vlen) @ [10]"
  using put_type_and_value_plain[of val vlen t] by (simp add: encode_def writes_def)

lemma encode_b64:
  "is_b64 val vlen \<Longrightarrow>
   encode t val vlen =
     cstr t @ [58, 58, 32]
     @ take (length (fold_text (Suc (Suc (Suc (length (cstr t))))) (b64_raw (value_bytes val vlen))) - pad_of (value_bytes val vlen))
         (fold_text (Suc (Suc (Suc (length (cstr t))))) (b64_raw (value_bytes val vlen)))
     @ replicate (pad_of (value_bytes val vlen)) 61 @ [10]"
  using put_type_and_value_b64[of val vlen t] by (simp add: encode_def)

lemma pad_le_fold:
  "pad_of val \<le> length (fold_text len (b64_raw val))"
  using pad_le_raw[of val] length_fold_text_ge[of "b64_raw val" len] by simp

section \<open>How far the encoder writes\<close>

lemma fold_col_ge1: "1 \<le> len \<Longrightarrow> 1 \<le> fold_col len n"
  by (induction n arbitrary: len) auto

lemma fold_text_len:
  "\<exists>f. length (fold_text len xs) = length xs + 2 * f
       \<and> fold_col len (length xs) + 76 * f \<le> len + length xs"
proof (induction xs arbitrary: len)
  case Nil
  then show ?case by simp
next
  case (Cons c cs)
  show ?case
  proof (cases "len > LDIF_LINE_WIDTH")
    case True
    from Cons[of 2] obtain f where
      f: "length (fold_text 2 cs) = length cs + 2 * f" "fold_col 2 (length cs) + 76 * f \<le> 2 + length cs"
      by blast
    have "length (fold_text len (c # cs)) = length (c # cs) + 2 * Suc f"
      using True f(1) by simp
    moreover have "fold_col len (length (c # cs)) + 76 * Suc f \<le> len + length (c # cs)"
      using True f(2) by (simp add: LDIF_LINE_WIDTH_def)
    ultimately show ?thesis by blast
  next
    case False
    from Cons[of "Suc len"] obtain f where
      f: "length (fold_text (Suc len) cs) = length cs + 2 * f"
        "fold_col (Suc len) (length cs) + 76 * f \<le> Suc len + length cs"
      by blast
    have "length (fold_text len (c # cs)) = length (c # cs) + 2 * f"
      using False f(1) by simp
    moreover have "fold_col len (length (c # cs)) + 76 * f \<le> len + length (c # cs)"
      using False f(2) by simp
    ultimately show ?thesis by blast
  qed
qed

lemma fold_text_bound:
  assumes "1 \<le> len"
  shows "length (fold_text len xs) \<le> length xs + 2 * ((len + length xs - 1) div 76)"
proof -
  from fold_text_len[of len xs] obtain f where
    f: "length (fold_text len xs) = length xs + 2 * f"
      "fold_col len (length xs) + 76 * f \<le> len + length xs" by blast
  have "1 \<le> fold_col len (length xs)" using assms by (rule fold_col_ge1)
  then have "76 * f \<le> len + length xs - 1" using f(2) by simp
  then have "f \<le> (len + length xs - 1) div 76" by (simp add: less_eq_div_iff_mult_less_eq mult.commute)
  then show ?thesis using f(1) by simp
qed

lemma cdiv_nonneg: "0 \<le> a \<Longrightarrow> 0 < b \<Longrightarrow> cdiv a b = a div b"
  by (cases "a = 0") (simp_all add: cdiv_def)

lemma size_needed_exact_nat: "size_needed_exact (int tlen) (int vlen) = int (need_nat tlen vlen)"
proof -
  have a: "cdiv (int vlen * 4) 3 = int (vlen * 4 div 3)"
    by (simp add: cdiv_nonneg zdiv_int)
  have "cdiv (int (vlen * 4 div 3) + 3 + int tlen + 3) 76
        = (int (vlen * 4 div 3) + 3 + int tlen + 3) div 76"
    by (rule cdiv_nonneg) simp_all
  also have "\<dots> = int ((vlen * 4 div 3 + 3 + tlen + 3) div 76)"
    by (simp add: zdiv_int)
  finally show ?thesis
    unfolding size_needed_exact_def a need_nat_def by simp
qed

lemma plain_extent:
  assumes "n \<le> vlen"
  shows "tlen + 2 + (n + 2 * ((Suc tlen + n - 1) div 76)) + 1 \<le> need_nat tlen vlen"
proof -
  have a: "n \<le> vlen * 4 div 3" using assms by simp
  have "(Suc tlen + n - 1) div 76 \<le> ((vlen * 4 div 3 + 3) + tlen + 3) div 76"
    by (rule div_le_mono) (use a in simp)
  then show ?thesis using a by (simp add: need_nat_def)
qed

lemma b64_extent:
  "tlen + 3 + (4 * ((vlen + 2) div 3) + 2 * ((Suc (Suc (Suc tlen)) + 4 * ((vlen + 2) div 3) - 1) div 76)) + 1
   \<le> need_nat tlen vlen"
proof -
  have a: "4 * ((vlen + 2) div 3) \<le> vlen * 4 div 3 + 3" by arith
  have "(Suc (Suc (Suc tlen)) + 4 * ((vlen + 2) div 3) - 1) div 76 \<le> ((vlen * 4 div 3 + 3) + tlen + 3) div 76"
    by (rule div_le_mono) (use a in simp)
  then show ?thesis using a by (simp add: need_nat_def)
qed

lemma length_plain_attempt: "length (plain_attempt val vlen) \<le> nat vlen"
proof -
  have "length (takeWhile printable (value_bytes val vlen)) \<le> length (value_bytes val vlen)"
    by (rule length_takeWhile_le)
  then show ?thesis by (simp add: plain_attempt_def)
qed

lemma extent_bound:
  "length (fst (put_type_and_value ([], 0) t val vlen)) \<le> need_nat (length (cstr t)) (nat vlen)
   \<and> wf_out (put_type_and_value ([], 0) t val vlen)"
proof (cases "is_b64 val vlen")
  case False
  let ?n = "length (cstr t)"
  let ?bs = "value_bytes val vlen"
  let ?ob = "put_type_and_value ([], 0) t val vlen"
  from put_type_and_value_plain[OF False, of t]
  have w: "wf_out ?ob"
    and l: "length (fst ?ob) = snd ?ob"
    and o: "outstr ?ob = cstr t @ [58, 32] @ fold_text (Suc ?n) ?bs @ [10]"
    by (simp_all add: writes_def)
  have "length (fst ?ob) = ?n + 2 + length (fold_text (Suc ?n) ?bs) + 1"
    using l length_outstr[OF w] o by simp
  also have "\<dots> \<le> ?n + 2 + (nat vlen + 2 * ((Suc ?n + nat vlen - 1) div 76)) + 1"
    using fold_text_bound[of "Suc ?n" ?bs] by simp
  also have "\<dots> \<le> need_nat ?n (nat vlen)" by (rule plain_extent) simp
  finally show ?thesis using w by simp
next
  case True
  let ?n = "length (cstr t)"
  let ?bs = "value_bytes val vlen"
  let ?ob = "put_type_and_value ([], 0) t val vlen"
  let ?F = "fold_text (Suc (Suc (Suc ?n))) (b64_raw ?bs)"
  let ?A = "fold_text (Suc ?n) (plain_attempt val vlen)"
  from put_type_and_value_b64[OF True, of t]
  have w: "wf_out ?ob"
    and l: "length (fst ?ob) = max (?n + 2 + length ?A) (?n + 3 + length ?F + 1)"
    by simp_all
  have "?n + 2 + length ?A \<le> ?n + 2 + (length (plain_attempt val vlen)
         + 2 * ((Suc ?n + length (plain_attempt val vlen) - 1) div 76)) + 1"
    using fold_text_bound[of "Suc ?n" "plain_attempt val vlen"] by simp
  also have "\<dots> \<le> need_nat ?n (nat vlen)" by (rule plain_extent) (rule length_plain_attempt)
  finally have a: "?n + 2 + length ?A \<le> need_nat ?n (nat vlen)" .
  have "?n + 3 + length ?F + 1 \<le> ?n + 3 + (length (b64_raw ?bs)
         + 2 * ((Suc (Suc (Suc ?n)) + length (b64_raw ?bs) - 1) div 76)) + 1"
    using fold_text_bound[of "Suc (Suc (Suc ?n))" "b64_raw ?bs"] by simp
  also have "\<dots> \<le> need_nat ?n (nat vlen)"
    unfolding length_b64_raw length_value_bytes by (rule b64_extent)
  finally have b: "?n + 3 + length ?F + 1 \<le> need_nat ?n (nat vlen)" .
  show ?thesis using a b l w by simp
qed

lemma s32_id: "0 \<le> x \<Longrightarrow> x < 2 ^ 31 \<Longrightarrow> s32 x = x"
  by (simp add: s32_def)

lemma s32_in_int: "in_int x \<Longrightarrow> s32 x = x"
  by (simp add: s32_def in_int_def)

lemma size_needed_no_overflow:
  assumes "no_overflow tlen vlen"
  shows "LDIF_SIZE_NEEDED tlen vlen = size_needed_exact tlen vlen"
proof -
  let ?b = "cdiv (vlen * 4) 3 + 3"
  let ?q = "cdiv (?b + tlen + 3) 76"
  from assms have
    r1: "in_int (vlen * 4)" and r2: "in_int (cdiv (vlen * 4) 3)" and r3: "in_int ?b" and
    r4: "in_int (tlen + 4)" and r5: "in_int (tlen + 4 + ?b)" and
    r6: "in_int (?b + tlen)" and r7: "in_int (?b + tlen + 3)" and
    r8: "in_int ?q" and r9: "in_int (?q * 2)" and
    r10: "in_int (size_needed_exact tlen vlen)"
    unfolding no_overflow_def Let_def by blast+
  have B: "LDIF_BASE64_LEN vlen = ?b"
    unfolding LDIF_BASE64_LEN_def s32_in_int[OF r1] s32_in_int[OF r2] s32_in_int[OF r3] ..
  have w: "int LDIF_LINE_WIDTH = 76" by (simp add: LDIF_LINE_WIDTH_def)
  have r10': "in_int (tlen + 4 + ?b + ?q * 2)" using r10 by (simp add: size_needed_exact_def)
  show ?thesis
    unfolding LDIF_SIZE_NEEDED_def B w s32_in_int[OF r4] s32_in_int[OF r5] s32_in_int[OF r6]
      s32_in_int[OF r7] s32_in_int[OF r8] s32_in_int[OF r9] s32_in_int[OF r10']
      size_needed_exact_def ..
qed

lemma no_overflow_nonneg:
  assumes "0 \<le> tlen" "0 \<le> vlen" "vlen * 4 < 2 ^ 31" "size_needed_exact tlen vlen < 2 ^ 31"
  shows "no_overflow tlen vlen"
proof -
  let ?b = "cdiv (vlen * 4) 3 + 3"
  let ?q = "cdiv (?b + tlen + 3) 76"
  have c: "cdiv (vlen * 4) 3 = vlen * 4 div 3" using assms(2) by (simp add: cdiv_nonneg)
  have d0: "0 \<le> vlen * 4 div 3" using assms(2) by (simp add: pos_imp_zdiv_nonneg_iff)
  have q: "?q = (?b + tlen + 3) div 76" using d0 assms(1) by (intro cdiv_nonneg) (simp_all add: c)
  have q0: "0 \<le> ?q" unfolding q using d0 assms(1) by (simp add: pos_imp_zdiv_nonneg_iff c)
  have tot: "tlen + 4 + ?b + ?q * 2 < 2 ^ 31" using assms(4) by (simp add: size_needed_exact_def)
  have b0: "0 \<le> cdiv (vlen * 4) 3" using d0 by (simp add: c)
  show ?thesis
    unfolding no_overflow_def Let_def in_int_def size_needed_exact_def
    using assms(1,2,3) b0 q0 tot by simp
qed
section \<open>Encoding, reading the line, decoding\<close>

text \<open>The text with its padding, from the digits.\<close>

lemma b64_text_raw:
  "b64_text val = take (length (b64_raw val) - pad_of val) (b64_raw val) @ replicate (pad_of val) 61"
proof (induction val rule: b64_raw.induct)
  case (1 b0 b1 b2 rest)
  have pd: "pad_of (b0 # b1 # b2 # rest) = pad_of rest" by (simp add: pad_of_def)
  have "pad_of rest \<le> length (b64_raw rest)" by (rule pad_le_raw)
  then show ?case using 1 unfolding pd by (simp add: Suc_diff_le)
next
  case (2 b0 b1)
  then show ?case by (simp add: pad_of_def)
next
  case (3 b0)
  then show ?case by (simp add: pad_of_def numeral_2_eq_2)
next
  case 4
  then show ?case by (simp add: pad_of_def)
qed

lemma fold_text_snoc:
  "fold_text len (xs @ [a]) =
     fold_text len xs @ (if fold_col len (length xs) > LDIF_LINE_WIDTH then [10, 32] else []) @ [a]"
  by (simp add: fold_text_append)

lemma fold_col_step:
  "fold_col len (Suc n) = fold_col (if len > LDIF_LINE_WIDTH then 2 else Suc len) n"
  by simp

lemma fold_col_inv:
  "len \<le> 77 \<Longrightarrow> fold_col len n \<le> 77 \<and> fold_col len n mod 76 = (len + n) mod 76"
proof (induction n arbitrary: len)
  case 0
  then show ?case by simp
next
  case (Suc n)
  show ?case
  proof (cases "len > LDIF_LINE_WIDTH")
    case True
    then have l: "len = 77" using Suc(2) by (simp add: LDIF_LINE_WIDTH_def)
    have e: "fold_col len (Suc n) = fold_col 2 n" using True by (simp only: fold_col_step if_True)
    have ih: "fold_col 2 n \<le> 77 \<and> fold_col 2 n mod 76 = (2 + n) mod 76" by (rule Suc(1)) simp
    have "len + Suc n = (2 + n) + 76" unfolding l by simp
    then have "(len + Suc n) mod 76 = (2 + n) mod 76" by (simp only: mod_add_self2)
    then show ?thesis unfolding e using ih by simp
  next
    case False
    then have s: "Suc len \<le> 77" by (simp add: LDIF_LINE_WIDTH_def)
    have e: "fold_col len (Suc n) = fold_col (Suc len) n" using False by (simp only: fold_col_step if_False)
    have "(len + Suc n) = (Suc len + n)" by simp
    then show ?thesis unfolding e using Suc(1)[OF s] by simp
  qed
qed

lemma mod76_odd: "odd (Suc k) \<Longrightarrow> (2 + k) mod 76 \<noteq> 1"
proof
  assume o: "odd (Suc k)" and m: "(2 + k) mod 76 = 1"
  from m have "Suc (Suc k) mod 76 = 1" by simp
  then have "Suc k mod 76 = 0" by (simp add: mod_Suc[of "Suc k"] split: if_splits)
  then have "76 dvd Suc k" by (simp add: mod_eq_0_iff_dvd)
  moreover have "(2::nat) dvd 76" by simp
  ultimately have "2 dvd Suc k" by (rule dvd_trans[rotated])
  with o show False by simp
qed

lemma no_fold_before_last:
  assumes "\<not> (len \<le> 77 \<and> (len + n) mod 76 = 1)" "odd n"
  shows "fold_col len n \<le> LDIF_LINE_WIDTH"
proof (cases "len \<le> 77")
  case True
  with assms(1) have m: "(len + n) mod 76 \<noteq> 1" by simp
  from fold_col_inv[OF True, of n] have "fold_col len n \<le> 77" "fold_col len n mod 76 = (len + n) mod 76"
    by simp_all
  with m have "fold_col len n \<noteq> 77" by auto
  then show ?thesis using \<open>fold_col len n \<le> 77\<close> by (simp add: LDIF_LINE_WIDTH_def)
next
  case False
  from assms(2) obtain k where n: "n = Suc k" by (cases n) auto
  have e: "fold_col len n = fold_col 2 k" using False by (simp add: n LDIF_LINE_WIDTH_def)
  from fold_col_inv[of 2 k] have "fold_col 2 k \<le> 77" "fold_col 2 k mod 76 = (2 + k) mod 76"
    by simp_all
  moreover have "(2 + k) mod 76 \<noteq> 1" using assms(2) n by (intro mod76_odd) simp
  ultimately have "fold_col 2 k \<noteq> 77" by auto
  then show ?thesis using \<open>fold_col 2 k \<le> 77\<close> e by (simp add: LDIF_LINE_WIDTH_def)
qed

lemma length_fold_text_same: "length xs = length ys \<Longrightarrow> length (fold_text len xs) = length (fold_text len ys)"
proof (induction xs arbitrary: ys len)
  case Nil
  then show ?case by simp
next
  case (Cons x xs)
  then obtain y ys' where "ys = y # ys'" "length xs = length ys'" by (cases ys) auto
  then show ?case using Cons(1) by simp
qed

text \<open>Padding a folded text: one character.\<close>

lemma fold_pad1:
  assumes "F = fold_text len (X @ [a])"
  shows "take (length F - 1) F @ [61] = fold_text len (X @ [61])"
  unfolding assms fold_text_snoc by (simp add: butlast_conv_take[symmetric] butlast_append)

lemma fold_pad2:
  assumes "F = fold_text len (X @ [a, b])" "fold_col len (Suc (length X)) \<le> LDIF_LINE_WIDTH"
  shows "take (length F - 2) F @ [61, 61] = fold_text len (X @ [61, 61])"
proof -
  have s: "fold_text len ((X @ [c]) @ [d]) = fold_text len (X @ [c]) @ [d]" for c d
    using assms(2) by (subst fold_text_snoc) simp
  have F: "F = (fold_text len X @ (if fold_col len (length X) > LDIF_LINE_WIDTH then [10, 32] else [])) @ [a, b]"
    unfolding assms(1) using s[of a b] by (simp add: fold_text_snoc)
  have G: "fold_text len (X @ [61, 61]) =
      (fold_text len X @ (if fold_col len (length X) > LDIF_LINE_WIDTH then [10, 32] else [])) @ [61, 61]"
    using s[of 61 61] by (simp add: fold_text_snoc)
  show ?thesis unfolding G unfolding F by simp
qed


text \<open>The line reader on a folded text.\<close>

lemma getline_scan_prefix:
  "10 \<notin> set pre \<Longrightarrow> 0 \<notin> set pre \<Longrightarrow> getline_scan (pre @ rest) = pre @ getline_scan rest"
  by (induction pre) auto

lemma getline_scan_folded:
  "10 \<notin> set xs \<Longrightarrow> 0 \<notin> set xs \<Longrightarrow> getline_scan (fold_text len xs @ [10]) = mark_text len xs"
  by (induction xs arbitrary: len) (auto simp: ISSPACE_def)

lemma filter_mark_text:
  "1 \<notin> set xs \<Longrightarrow> filter (\<lambda>c. c \<noteq> 1) (mark_text len xs) = xs"
  by (induction xs arbitrary: len) (auto simp: CONTINUED_LINE_MARKER_def)

lemma set_mark_text: "set (mark_text len xs) \<subseteq> set xs \<union> {1}"
  by (induction xs arbitrary: len) (auto simp: CONTINUED_LINE_MARKER_def)

lemma mark_text_head:
  "xs \<noteq> [] \<Longrightarrow> \<not> ISSPACE (hd xs) \<Longrightarrow> mark_text len xs \<noteq> [] \<and> \<not> ISSPACE (hd (mark_text len xs))"
  by (cases xs) (auto simp: CONTINUED_LINE_MARKER_def)


lemma printable_chars: "printable c \<Longrightarrow> c \<noteq> 0 \<and> c \<noteq> 1 \<and> c \<noteq> 10"
  by (auto simp: printable_def isprint_def word_le_nat_alt)

lemma b64_text_chars: "c \<in> set (b64_text v) \<Longrightarrow> c \<noteq> 0 \<and> c \<noteq> 1 \<and> c \<noteq> 10"
  by (induction v rule: b64_text.induct) (auto simp: digit_props)

lemma b64_text_head: "v \<noteq> [] \<Longrightarrow> b64_text v \<noteq> [] \<and> \<not> ISSPACE (hd (b64_text v))"
  by (cases v rule: b64_text.cases) (simp_all add: digit_props)

lemma last_two: "2 \<le> length xs \<Longrightarrow> \<exists>a b. xs = take (length xs - 2) xs @ [a, b]"
proof -
  assume l: "2 \<le> length xs"
  define ys where "ys = drop (length xs - 2) xs"
  have "length ys = Suc (Suc 0)" using l by (simp add: ys_def)
  then obtain a b where "ys = [a, b]" by (auto simp: length_Suc_conv)
  then show ?thesis using append_take_drop_id[of "length xs - 2" xs] unfolding ys_def by metis
qed

lemma b64_fold:
  fixes v :: "byte list"
  assumes "\<not> (length v mod 3 = 1 \<and> len \<le> 77 \<and> (len + (4 * (length v div 3) + 3)) mod 76 = 1)"
  defines "F \<equiv> fold_text len (b64_raw v)"
  shows "take (length F - pad_of v) F @ replicate (pad_of v) 61 = fold_text len (b64_text v)"
proof -
  let ?raw = "b64_raw v"
  note tr = b64_text_raw[of v]
  have m: "length v mod 3 = 0 \<or> length v mod 3 = 1 \<or> length v mod 3 = 2" by arith
  then show ?thesis
  proof (elim disjE)
    assume a: "length v mod 3 = 0"
    then have p: "pad_of v = 0" by (simp add: pad_of_def)
    show ?thesis using tr by (simp add: p F_def)
  next
    assume a: "length v mod 3 = 2"
    then have p: "pad_of v = 1" by (simp add: pad_of_def)
    from a have "v \<noteq> []" by auto
    then have "0 < length ?raw" by (cases v) (simp_all add: length_b64_raw)
    then have ne: "?raw \<noteq> []" by simp
    have r: "?raw = butlast ?raw @ [last ?raw]" using ne by simp
    have F: "F = fold_text len (butlast ?raw @ [last ?raw])" using r by (simp add: F_def)
    have "b64_text v = butlast ?raw @ [61]"
      using tr by (simp add: p butlast_conv_take)
    then show ?thesis using fold_pad1[OF F] by (simp add: p)
  next
    assume a: "length v mod 3 = 1"
    then have p: "pad_of v = 2" by (simp add: pad_of_def)
    have lv: "length v = 3 * (length v div 3) + 1" using a by arith
    have "(length v + 2) div 3 = Suc (length v div 3)" using a by arith
    then have lr: "length ?raw = 4 * (length v div 3) + 4" by (simp add: length_b64_raw)
    then have "2 \<le> length ?raw" by simp
    from last_two[OF this] obtain x y where r: "?raw = take (length ?raw - 2) ?raw @ [x, y]" by blast
    let ?X = "take (length ?raw - 2) ?raw"
    have lX: "Suc (length ?X) = 4 * (length v div 3) + 3" using lr by simp
    have F: "F = fold_text len (?X @ [x, y])" using r by (simp add: F_def)
    have o: "odd (4 * (length v div 3) + 3)" by simp
    have "fold_col len (4 * (length v div 3) + 3) \<le> LDIF_LINE_WIDTH"
      using assms(1) a by (intro no_fold_before_last o) simp
    then have c: "fold_col len (Suc (length ?X)) \<le> LDIF_LINE_WIDTH" unfolding lX .
    have "b64_text v = ?X @ [61, 61]" using tr by (simp add: p numeral_2_eq_2)
    then show ?thesis using fold_pad2[OF F c] by (simp add: p numeral_2_eq_2)
  qed
qed

lemma rd_hd: "v \<noteq> [] \<Longrightarrow> rd (v @ rest) 0 = hd v"
  by (cases v) (simp_all add: rd_def)

section \<open>The claims\<close>

subsection \<open>Invalid base64 characters\<close>

text \<open>
  Claim C2 says that an invalid character at any position of a four-character group of
  a double-colon value makes \<open>str_parse_line\<close> fail.  The validity loop runs over
  \<open>i < 3\<close>, so the fourth character of a group is never tested: the line
  \<open>cn:: AAA!\<close> is accepted, and its value is the three bytes 0, 0, 255.
\<close>

theorem fourth_char_not_validated:
  "str_parse_line (bytes ''cn:: AAA!'') = Inr (bytes ''cn'', [0, 0, 255], 3)"
  by code_simp

subsection \<open>Width of the physical lines\<close>

text \<open>
  Claim C3 says that no physical line of a fragment is longer than 76 columns.  The
  fold test \<open>len > LDIF_LINE_WIDTH\<close> comes before the write, and in the plain path
  \<open>len\<close> does not count the space after the colon: for the type \<open>cn\<close> and a value of
  75 letters the first line has 78 columns.  In the base64 path a line reaches 77.
\<close>

theorem plain_line_of_78_columns:
  "map length (physical_lines (encode (bytes ''cn'') (replicate 75 97) 75)) = [78, 2]
   \<and> map length (physical_lines (encode (bytes ''cn'') (replicate 57 255) 57)) = [77, 5]"
  by code_simp

subsection \<open>The size computation\<close>

text \<open>
  Claim C4 says that \<open>ldif_type_and_value\<close> fails whenever the size computation
  overflows.  The only test is on \<open>t + 1\<close>; the macro itself is evaluated in \<open>int\<close>.
  For a type of two characters and \<open>vlen = 2^30\<close> the product \<open>vlen * 4\<close> wraps to 0,
  the call goes on with a buffer of 10 bytes, and the size the formula means is
  1469330924.
\<close>

theorem size_overflow_not_detected:
  "ldif_bufsize 2 (2 ^ 30) = Inr 10 \<and> size_needed_exact 2 (2 ^ 30) = 1469330924"
  by (simp add: ldif_bufsize_def LDIF_SIZE_NEEDED_def LDIF_BASE64_LEN_def s32_def cdiv_def
      size_needed_exact_def LDIF_LINE_WIDTH_def)

subsection \<open>Folding and padding\<close>

text \<open>
  Claim C9 says that every continuation line begins with the fold space, and that
  dropping it and joining the lines gives back the unfolded text.  The padding loop
  stores \<open>=\<close> at \<open>*out - pad\<close> whatever lies there.  When one byte is left over and the
  fold falls just before the fourth digit of the last group, the two stores hit the fold
  space and the fourth digit: the third digit stays, and the second physical line is
  \<open>==\<close>, with no fold space.  Here the type has 3 characters and the value 52 bytes.
\<close>

theorem padding_overwrites_fold_space:
  "physical_lines (encode (bytes ''abc'') (replicate 52 255) 52) =
     [bytes ''abc:: /////////////////////////////////////////////////////////////////////wA'',
      bytes ''=='']"
  by code_simp

subsection \<open>Lines without a separator or without a value\<close>

text \<open>
  Claim C7.  A line with no colon fails with \<open>MissingSeparator\<close>.  A line whose colon,
  or double colon, is followed by white space only (or by nothing) fails with
  \<open>MissingValue\<close>; here \<open>ty\<close> is the text before the colon, a C string without a colon.
  In both cases the result is an error, so no triple is produced.  The two lines of the
  specification, \<open>noseparatorhere\<close> and \<open>cn:\<close> followed by three spaces, are instances.
\<close>

theorem missing_separator_and_value:
  "(58 \<notin> set line \<longrightarrow> str_parse_line line = Inl MissingSeparator)
   \<and> (58 \<notin> set ty \<and> 0 \<notin> set ty \<and> (\<forall>c\<in>set ws. ISSPACE c) \<longrightarrow>
        str_parse_line (ty @ [58] @ ws) = Inl MissingValue
        \<and> str_parse_line (ty @ [58, 58] @ ws) = Inl MissingValue)
   \<and> str_parse_line (bytes ''noseparatorhere'') = Inl MissingSeparator
   \<and> str_parse_line (bytes ''cn:   '') = Inl MissingValue"
proof -
  have "str_parse_line (bytes ''noseparatorhere'') = Inl MissingSeparator"
    by (rule no_colon) (simp add: bytes_def)
  moreover have "str_parse_line (bytes ''cn'' @ [58] @ bytes ''   '') = Inl MissingValue"
    by (rule no_value) (simp_all add: bytes_def ISSPACE_def)
  then have "str_parse_line (bytes ''cn:   '') = Inl MissingValue"
    by (simp add: bytes_def)
  ultimately show ?thesis using no_colon no_value by blast
qed

theorem missing_separator_and_value_witness:
  "str_parse_line (bytes ''mail'') = Inl MissingSeparator
   \<and> str_parse_line (bytes ''mail'' @ [58] @ [32, 9]) = Inl MissingValue
   \<and> str_parse_line (bytes ''mail'' @ [58, 58] @ [32, 9]) = Inl MissingValue"
  using missing_separator_and_value[where line = "bytes ''mail''" and ty = "bytes ''mail''"
      and ws = "[32, 9]"]
  by (simp add: bytes_def ISSPACE_def)

subsection \<open>How many bytes a base64 value decodes to\<close>

text \<open>
  Claim C8.  The line is \<open>ty\<close>, a double colon, white space \<open>ws\<close> and the value text
  \<open>m\<close>; once the continuation markers are deleted, \<open>m\<close> is a run of groups of four
  alphabet characters followed by \<open>tail\<close>.  Each group adds 3 to \<open>*vlen\<close>.  If nothing
  follows the groups, decoding ends there; if the next group has \<open>=\<close> in third place,
  decoding ends with 1 more byte; if it has \<open>=\<close> in fourth place, with 2 more, whatever
  comes after the \<open>=\<close>.  The line \<open>cn:: Sm9obiBEb2U=\<close> decodes to the type \<open>cn\<close> and
  the 8 bytes \<open>John Doe\<close>.
\<close>

theorem b64_vlen_counts:
  fixes ty ws m :: "byte list"
  assumes "58 \<notin> set ty" "0 \<notin> set ty" "\<forall>c\<in>set ws. ISSPACE c"
    and "m \<noteq> []" "\<not> ISSPACE (hd m)" "0 \<notin> set m"
    and "\<forall>g\<in>set gs. length g = 4 \<and> (\<forall>c\<in>set g. b64_char c)"
    and "filter (\<lambda>c. c \<noteq> CONTINUED_LINE_MARKER) m = concat gs @ tail"
  shows "(tail = [] \<longrightarrow>
            (\<exists>t v. str_parse_line (ty @ [58, 58] @ ws @ m) = Inr (t, v, 3 * int (length gs))))
       \<and> (\<forall>a b rest. tail = a # b # 61 # rest \<and> b64_char a \<and> b64_char b \<longrightarrow>
            (\<exists>t v. str_parse_line (ty @ [58, 58] @ ws @ m) = Inr (t, v, 3 * int (length gs) + 1)))
       \<and> (\<forall>a b c rest. tail = a # b # c # 61 # rest \<and> b64_char a \<and> b64_char b \<and> b64_char c \<longrightarrow>
            (\<exists>t v. str_parse_line (ty @ [58, 58] @ ws @ m) = Inr (t, v, 3 * int (length gs) + 2)))
       \<and> str_parse_line (bytes ''cn:: Sm9obiBEb2U='') = Inr (bytes ''cn'', bytes ''John Doe'', 8)"
proof -
  have "str_parse_line (bytes ''cn:: Sm9obiBEb2U='') = Inr (bytes ''cn'', bytes ''John Doe'', 8)"
    by code_simp
  then show ?thesis using b64_vlen_general[OF assms] by blast
qed

theorem b64_vlen_counts_witness:
  "\<exists>t v. str_parse_line (bytes ''cn'' @ [58, 58] @ [32] @ bytes ''Sm9obiBEb2U='') = Inr (t, v, 8)"
proof -
  have c: "b64_char 83" "b64_char 109" "b64_char 57" "b64_char 111" "b64_char 98"
    "b64_char 105" "b64_char 66" "b64_char 69" "b64_char 50" "b64_char 85"
    by (simp_all add: b64_char_simps b642nib_def)
  have "\<exists>t v. str_parse_line (bytes ''cn'' @ [58, 58] @ [32] @ bytes ''Sm9obiBEb2U='')
          = Inr (t, v, 3 * int (length [bytes ''Sm9o'', bytes ''biBE'']) + 2)"
    using b64_vlen_counts[where ty = "bytes ''cn''" and ws = "[32]" and m = "bytes ''Sm9obiBEb2U=''"
        and gs = "[bytes ''Sm9o'', bytes ''biBE'']" and tail = "bytes ''b2U=''"] c
    by (simp add: bytes_def ISSPACE_def CONTINUED_LINE_MARKER_def)
  then show ?thesis by simp
qed

subsection \<open>Plain text or base64\<close>

text \<open>
  Claim C6.  \<open>is_b64 val vlen\<close> is the flag \<open>b64\<close> the encoder tests after its first
  loop.  It is set exactly when the first value byte \<open>val[0]\<close> is white space or a colon,
  or one of the \<open>vlen\<close> value bytes is not ASCII or not printable.  The encoder reads
  \<open>val[0]\<close> whatever \<open>vlen\<close> is: with \<open>vlen = 0\<close> and a space at \<open>val\<close> it writes the
  double colon, as the last line of the statement shows.  When the flag is set the
  fragment starts with the type and \<open>:: \<close>.  When it is not, the fragment is the type,
  \<open>: \<close>, the value bytes folded at the column counter, and a newline; unfolding the value
  part gives the value bytes back, and a value that fits on the first line is written as
  it is.
\<close>

theorem representation_choice:
  "(is_b64 val vlen \<longleftrightarrow>
      (ISSPACE (rd val 0) \<or> rd val 0 = 58)
      \<or> (\<exists>b\<in>set (value_bytes val vlen). \<not> isascii b \<or> \<not> isprint b))
   \<and> (is_b64 val vlen \<longrightarrow>
        take (length (cstr t) + 3) (encode t val vlen) = cstr t @ [58, 58, 32])
   \<and> (\<not> is_b64 val vlen \<longrightarrow>
        encode t val vlen
          = cstr t @ [58, 32] @ fold_text (length (cstr t) + 1) (value_bytes val vlen) @ [10]
        \<and> strip_folds (fold_text (length (cstr t) + 1) (value_bytes val vlen))
          = value_bytes val vlen)
   \<and> (\<not> is_b64 val vlen \<and> length (cstr t) + length (value_bytes val vlen) \<le> 76 \<longrightarrow>
        encode t val vlen = cstr t @ [58, 32] @ value_bytes val vlen @ [10])
   \<and> encode (bytes ''cn'') (bytes ''John Doe'') 8 = bytes ''cn: John Doe'' @ [10]
   \<and> encode (bytes ''cn'') (bytes '' x'') 0 = bytes ''cn:: '' @ [10]"
proof -
  let ?bs = "value_bytes val vlen"
  have a: "is_b64 val vlen \<longleftrightarrow>
      (ISSPACE (rd val 0) \<or> rd val 0 = 58) \<or> (\<exists>b\<in>set ?bs. \<not> isascii b \<or> \<not> isprint b)"
    by (simp add: is_b64_iff first_byte_b64_rd printable_def)
  have b: "take (length (cstr t) + 3) (encode t val vlen) = cstr t @ [58, 58, 32]"
    if "is_b64 val vlen"
    by (simp add: encode_b64[OF that])
  have np: "10 \<notin> set ?bs" if "\<not> is_b64 val vlen"
    using that printable_not_newline by (auto simp: is_b64_iff)
  have c: "encode t val vlen = cstr t @ [58, 32] @ fold_text (length (cstr t) + 1) ?bs @ [10]
        \<and> strip_folds (fold_text (length (cstr t) + 1) ?bs) = ?bs" if "\<not> is_b64 val vlen"
    using encode_plain[OF that, of t] strip_folds_fold_text[OF np[OF that]] by simp
  have d: "encode t val vlen = cstr t @ [58, 32] @ ?bs @ [10]"
    if "\<not> is_b64 val vlen" "length (cstr t) + length ?bs \<le> 76"
    using encode_plain[OF that(1), of t] fold_text_short[of "Suc (length (cstr t))" ?bs] that(2)
    by simp
  have e: "encode (bytes ''cn'') (bytes ''John Doe'') 8 = bytes ''cn: John Doe'' @ [10]"
    by code_simp
  have f: "encode (bytes ''cn'') (bytes '' x'') 0 = bytes ''cn:: '' @ [10]"
    by code_simp
  show ?thesis using a b c d e f by blast
qed

theorem representation_choice_witness:
  "\<not> is_b64 (bytes ''Jane'') 4
   \<and> encode (bytes ''sn'') (bytes ''Jane'') 4 = bytes ''sn: Jane'' @ [10]
   \<and> is_b64 [32, 74] 2 \<and> take 5 (encode (bytes ''sn'') [32, 74] 2) = bytes ''sn:: ''"
proof -
  have n: "\<not> is_b64 (bytes ''Jane'') 4" by code_simp
  have y: "is_b64 [32, 74] 2" by code_simp
  have c: "cstr (bytes ''sn'') = bytes ''sn''" by (simp add: cstr_def bytes_def)
  have v: "value_bytes (bytes ''Jane'') 4 = bytes ''Jane''"
    using value_bytes_all[of "bytes ''Jane''"] by (simp add: bytes_def)
  have s: "length (cstr (bytes ''sn'')) + length (value_bytes (bytes ''Jane'') 4) \<le> 76"
    unfolding v by (simp add: cstr_def bytes_def)
  from representation_choice[of "bytes ''Jane''" 4 "bytes ''sn''"] n s
  have "encode (bytes ''sn'') (bytes ''Jane'') 4
        = cstr (bytes ''sn'') @ [58, 32] @ value_bytes (bytes ''Jane'') 4 @ [10]"
    by blast
  then have p: "encode (bytes ''sn'') (bytes ''Jane'') 4 = bytes ''sn: Jane'' @ [10]"
    unfolding c v by (simp add: bytes_def)
  from representation_choice[of "[32, 74]" 2 "bytes ''sn''"] y
  have "take (length (cstr (bytes ''sn'')) + 3) (encode (bytes ''sn'') [32, 74] 2)
        = cstr (bytes ''sn'') @ [58, 58, 32]"
    by blast
  then have q: "take 5 (encode (bytes ''sn'') [32, 74] 2) = bytes ''sn:: ''"
    unfolding c by (simp add: bytes_def)
  show ?thesis using n y p q by blast
qed

subsection \<open>Padding of the last group\<close>

text \<open>
  Claim C5.  The encoder sees \<open>nat vlen\<close> value bytes: \<open>vlen\<close> of them, and none when
  \<open>vlen\<close> is negative.  For a value that goes the base64 way, the text after the type and
  \<open>:: \<close> holds no \<open>=\<close> when that number is a multiple of 3; when it is 1 more, the
  fragment is a body without \<open>=\<close> followed by exactly two \<open>=\<close> and the newline; when
  it is 2 more, by exactly one.
\<close>

theorem base64_padding:
  assumes "is_b64 val vlen"
  shows "(nat vlen mod 3 = 0 \<longrightarrow>
            61 \<notin> set (drop (length (cstr t) + 3) (encode t val vlen)))
       \<and> (nat vlen mod 3 = 1 \<longrightarrow>
            (\<exists>body. encode t val vlen = body @ [61, 61, 10]
                  \<and> 61 \<notin> set (drop (length (cstr t) + 3) body)))
       \<and> (nat vlen mod 3 = 2 \<longrightarrow>
            (\<exists>body. encode t val vlen = body @ [61, 10]
                  \<and> 61 \<notin> set (drop (length (cstr t) + 3) body)))"
proof -
  let ?n = "length (cstr t)"
  let ?bs = "value_bytes val vlen"
  let ?F = "fold_text (Suc (Suc (Suc ?n))) (b64_raw ?bs)"
  let ?body = "cstr t @ [58, 58, 32] @ take (length ?F - pad_of ?bs) ?F"
  have e: "encode t val vlen = ?body @ replicate (pad_of ?bs) 61 @ [10]"
    using encode_b64[OF assms, of t] by simp
  have raw: "61 \<notin> set (b64_raw xs)" for xs
    by (induction xs rule: b64_raw.induct) (simp_all add: digit_props)
  have "set (fold_text len xs) \<subseteq> set xs \<union> {10, 32}" for len xs
    by (induction xs arbitrary: len) auto
  then have F: "61 \<notin> set ?F" using raw[of ?bs] by fastforce
  have "drop (?n + 3) ?body = take (length ?F - pad_of ?bs) ?F" by simp
  then have nb: "61 \<notin> set (drop (?n + 3) ?body)" using F by (auto dest: in_set_takeD)
  have p0: "pad_of ?bs = 0" if "nat vlen mod 3 = 0" using that by (simp add: pad_of_def)
  have p1: "pad_of ?bs = 2" if "nat vlen mod 3 = 1" using that by (simp add: pad_of_def)
  have p2: "pad_of ?bs = 1" if "nat vlen mod 3 = 2" using that by (simp add: pad_of_def)
  have c0: "61 \<notin> set (drop (?n + 3) (encode t val vlen))" if "nat vlen mod 3 = 0"
    using nb by (simp add: e p0[OF that])
  have c1: "\<exists>body. encode t val vlen = body @ [61, 61, 10] \<and> 61 \<notin> set (drop (?n + 3) body)"
    if "nat vlen mod 3 = 1"
    using nb by (intro exI[of _ ?body]) (simp add: e p1[OF that] numeral_2_eq_2)
  have c2: "\<exists>body. encode t val vlen = body @ [61, 10] \<and> 61 \<notin> set (drop (?n + 3) body)"
    if "nat vlen mod 3 = 2"
    using nb by (intro exI[of _ ?body]) (simp add: e p2[OF that])
  show ?thesis using c0 c1 c2 by blast
qed

theorem base64_padding_witness:
  "encode (bytes ''cn'') [255, 255, 255] 3 = bytes ''cn:: ////'' @ [10]
   \<and> (\<exists>body. encode (bytes ''cn'') [32] 1 = body @ [61, 61, 10] \<and> 61 \<notin> set (drop 5 body))
   \<and> (\<exists>body. encode (bytes ''cn'') [32, 74] 2 = body @ [61, 10] \<and> 61 \<notin> set (drop 5 body))"
proof -
  have y: "is_b64 [32] 1" "is_b64 [32, 74] 2" by code_simp+
  have c: "length (cstr (bytes ''cn'')) + 3 = 5" by (simp add: cstr_def bytes_def)
  have "encode (bytes ''cn'') [255, 255, 255] 3 = bytes ''cn:: ////'' @ [10]" by code_simp
  then show ?thesis
    using base64_padding[OF y(1), of "bytes ''cn''"] base64_padding[OF y(2), of "bytes ''cn''"]
    unfolding c by simp
qed

subsection \<open>The buffer is large enough\<close>

text \<open>
  Claim C10 says that the buffer is never overrun when the size computation does not
  overflow, for every \<open>vlen\<close>.  \<open>vlen\<close> is a signed \<open>int\<close>, and for a negative one the
  macro gives less than the type, the separator and the newline take: with the type \<open>cn\<close>
  and \<open>vlen = -4\<close> no operation of the macro overflows, the buffer has 5 bytes, and the
  encoder writes \<open>cn: \<close>, the newline and the terminator, 6 bytes.
\<close>

theorem negative_vlen_overruns_buffer:
  "no_overflow 2 (- 4)
   \<and> ldif_bufsize 2 (- 4) = Inr 5
   \<and> ldif_type_and_value (\<lambda>n. True) (bytes ''cn'') (bytes ''abcd'') (- 4)
       = Inr (bytes ''cn: '' @ [10, 0])
   \<and> int (length (fst (put_type_and_value ([], 0) (bytes ''cn'') (bytes ''abcd'') (- 4)))) + 1 = 6"
proof -
  have a: "no_overflow 2 (- 4)"
    by (simp add: no_overflow_def in_int_def cdiv_def size_needed_exact_def)
  have b: "ldif_bufsize 2 (- 4) = Inr 5"
    by (simp add: ldif_bufsize_def LDIF_SIZE_NEEDED_def LDIF_BASE64_LEN_def s32_def cdiv_def
        LDIF_LINE_WIDTH_def)
  have c: "put_type_and_value ([], 0) (bytes ''cn'') (bytes ''abcd'') (- 4)
           = (bytes ''cn: '' @ [10], 5)"
    by code_simp
  have t: "s32 (int (length (cstr (bytes ''cn'')))) = 2"
    by (simp add: cstr_def bytes_def s32_def)
  have d: "ldif_type_and_value (\<lambda>n. True) (bytes ''cn'') (bytes ''abcd'') (- 4)
           = Inr (bytes ''cn: '' @ [10, 0])"
    unfolding ldif_type_and_value_def Let_def t b c by (simp add: bytes_def)
  show ?thesis using a b c d by (simp add: bytes_def)
qed

text \<open>
  Claim C10 for \<open>vlen\<close> not negative.  When no operation of the macro overflows,
  \<open>ldif_type_and_value\<close> asks for \<open>LDIF_SIZE_NEEDED(tlen, vlen) + 1\<close> bytes, and
  \<open>put_type_and_value\<close> never writes further than that less one: the first component
  of its buffer holds every byte it ever stored, the bytes of an abandoned plain attempt
  included.  The terminator goes to the offset of \<open>*out\<close>, which lies inside, so the
  finished buffer has at most \<open>bufsize\<close> bytes.
\<close>

theorem no_buffer_overrun:
  assumes "0 \<le> vlen"
    and "no_overflow (int (length (cstr type))) vlen"
  shows "let tlen = int (length (cstr type));
             bufsize = LDIF_SIZE_NEEDED tlen vlen + 1;
             ob = put_type_and_value ([], 0) type val vlen
         in ldif_bufsize (s32 tlen) vlen = Inr bufsize
          \<and> int (length (fst ob)) + 1 \<le> bufsize
          \<and> snd ob \<le> length (fst ob)
          \<and> (malloc bufsize \<longrightarrow>
               (\<exists>buf. ldif_type_and_value malloc type val vlen = Inr buf
                      \<and> int (length buf) \<le> bufsize))"
proof -
  let ?tlen = "int (length (cstr type))"
  let ?need = "size_needed_exact ?tlen vlen"
  let ?ob = "put_type_and_value ([], 0) type val vlen"
  have sz: "LDIF_SIZE_NEEDED ?tlen vlen = ?need"
    using assms(2) by (rule size_needed_no_overflow)
  have nn: "?need = int (need_nat (length (cstr type)) (nat vlen))"
    using size_needed_exact_nat[of "length (cstr type)" "nat vlen"] assms(1) by simp
  have r: "in_int (?tlen + 4)" "in_int ?need"
    using assms(2) unfolding no_overflow_def Let_def by blast+
  have st: "s32 ?tlen = ?tlen" using r(1) by (intro s32_id) (simp_all add: in_int_def)
  have n0: "0 \<le> ?need" unfolding nn by simp
  have n1: "?need < 2 ^ 31" using r(2) by (simp add: in_int_def)
  have bs: "ldif_bufsize (s32 ?tlen) vlen = Inr (?need + 1)"
    using n0 n1 by (simp add: ldif_bufsize_def st sz Let_def)
  from extent_bound[of type val vlen] have
    ex: "length (fst ?ob) \<le> need_nat (length (cstr type)) (nat vlen)" and wf: "wf_out ?ob"
    by simp_all
  have e1: "int (length (fst ?ob)) + 1 \<le> ?need + 1" using ex nn by simp
  have e2: "snd ?ob \<le> length (fst ?ob)" using wf by (simp add: wf_out_def)
  have e3: "\<exists>buf. ldif_type_and_value malloc type val vlen = Inr buf
                \<and> int (length buf) \<le> ?need + 1"
    if "malloc (?need + 1)"
  proof -
    obtain mem pos where ob: "?ob = (mem, pos)" by (cases ?ob)
    have "ldif_type_and_value malloc type val vlen
          = Inr (mem[pos := 0] @ (if pos < length mem then [] else [0]))"
      using that by (simp add: ldif_type_and_value_def bs ob Let_def)
    moreover have "int (length (mem[pos := 0] @ (if pos < length mem then [] else [0]))) \<le> ?need + 1"
      using e1 by (simp add: ob)
    ultimately show ?thesis by blast
  qed
  show ?thesis unfolding Let_def sz using bs e1 e2 e3 by blast
qed

theorem no_buffer_overrun_witness:
  "ldif_bufsize 2 8 = Inr 20
   \<and> int (length (fst (put_type_and_value ([], 0) (bytes ''cn'') (bytes ''John Doe'') 8))) + 1 \<le> 20
   \<and> (\<exists>buf. ldif_type_and_value (\<lambda>n. True) (bytes ''cn'') (bytes ''John Doe'') 8 = Inr buf
            \<and> int (length buf) \<le> 20)"
proof -
  have c: "cstr (bytes ''cn'') = bytes ''cn''" by (simp add: cstr_def bytes_def)
  have l: "length (bytes ''cn'') = 2" by (simp add: bytes_def)
  have o: "no_overflow 2 8"
    by (simp add: no_overflow_def in_int_def cdiv_def size_needed_exact_def)
  have n: "LDIF_SIZE_NEEDED 2 8 = 19"
    by (simp add: LDIF_SIZE_NEEDED_def LDIF_BASE64_LEN_def s32_def cdiv_def LDIF_LINE_WIDTH_def)
  have s: "s32 2 = 2" by (simp add: s32_def)
  show ?thesis
    using no_buffer_overrun[of 8 "bytes ''cn''" "bytes ''John Doe''" "\<lambda>n. True"] o
    unfolding c l Let_def by (simp add: n s)
qed

subsection \<open>The round trip\<close>

text \<open>
  Claim C1 says that for every value \<open>v\<close> and every valid type \<open>t\<close>, decoding the
  logical line of the fragment for \<open>(t, v, len(v))\<close> gives back \<open>(t, v, len(v))\<close>.  It
  fails for the empty value: the fragment is \<open>cn: \<close> and a newline, and the decoder
  answers \<open>MissingValue\<close> for a line with nothing after the colon.  It also fails where
  the padding is stored over a fold (claim C9): for the type \<open>abc\<close> and 52 bytes 255
  the line is decoded, to 54 bytes.
\<close>

theorem empty_value_not_decoded:
  "valid_type (bytes ''cn'')
   \<and> str_getline (encode (bytes ''cn'') [] 0) = Some (bytes ''cn: '')
   \<and> str_parse_line (bytes ''cn: '') = Inl MissingValue
   \<and> valid_type (bytes ''abc'')
   \<and> str_getline (encode (bytes ''abc'') (replicate 52 255) 52)
       = Some (bytes ''abc:: /////////////////////////////////////////////////////////////////////wA'')
   \<and> str_parse_line (bytes ''abc:: /////////////////////////////////////////////////////////////////////wA'')
       = Inr (bytes ''abc'', replicate 52 255 @ [0, 255], 54)"
proof -
  have a: "valid_type (bytes ''cn'')" "valid_type (bytes ''abc'')"
    by (simp_all add: valid_type_def bytes_def ISSPACE_def)
  have b: "str_getline (encode (bytes ''cn'') [] 0) = Some (bytes ''cn: '')" by code_simp
  have c: "str_parse_line (bytes ''cn: '') = Inl MissingValue" by code_simp
  have d: "str_getline (encode (bytes ''abc'') (replicate 52 255) 52)
       = Some (bytes ''abc:: /////////////////////////////////////////////////////////////////////wA'')"
    by code_simp
  have e: "str_parse_line (bytes ''abc:: /////////////////////////////////////////////////////////////////////wA'')
       = Inr (bytes ''abc'', replicate 52 255 @ [0, 255], 54)"
    by code_simp
  show ?thesis using a b c d e by blast
qed

text \<open>
  Claim C1 for the other values.  The value is not empty, and it is not one whose
  padding meets a fold: a value that goes the base64 way, with one byte left over, whose
  last digit would come first on a continuation line.  The type is valid: not empty,
  without NUL, colon or newline, without white space at either end.  The encoder is
  given \<open>vlen = len(v)\<close> and a buffer that starts with \<open>v\<close>, whatever follows it.  Then
  the line reader finds a logical line in the fragment, and \<open>str_parse_line\<close> decodes it
  to the type, the value and its length.
\<close>

theorem round_trip:
  assumes t: "valid_type t" and v: "v \<noteq> []"
    and ns: "\<not> (is_b64 (v @ rest) (int (length v)) \<and> length v mod 3 = 1 \<and> length t \<le> 74
              \<and> (length t + 4 * (length v div 3) + 6) mod 76 = 1)"
  shows "\<exists>line. str_getline (encode t (v @ rest) (int (length v))) = Some line
              \<and> str_parse_line line = Inr (t, v, int (length v))"
proof -
  let ?n = "int (length v)"
  let ?val = "v @ rest"
  have vb: "value_bytes ?val ?n = v" by (simp add: value_bytes_take)
  have ct: "cstr t = t" using valid_type_chars(2)[OF t] by (rule cstr_no_nul)
  have t0: "0 \<notin> set t" "10 \<notin> set t" "t \<noteq> []" using t by (simp_all add: valid_type_def)
  have h: "rd (t @ xs) 0 \<noteq> 10 \<and> rd (t @ xs) 0 \<noteq> 0" for xs
    using t0 by (cases t) (auto simp: rd_def)
  show ?thesis
  proof (cases "is_b64 ?val ?n")
    case False
    let ?m = "mark_text (Suc (length t)) v"
    have e: "encode t ?val ?n = (t @ [58, 32]) @ (fold_text (Suc (length t)) v @ [10])"
      using encode_plain[OF False, of t] by (simp add: vb ct)
    have pr: "\<forall>b\<in>set v. printable b" and nf: "\<not> first_byte_b64 ?val"
      using False by (simp_all add: is_b64_iff vb)
    have v0: "0 \<notin> set v" "10 \<notin> set v" "1 \<notin> set v" using pr printable_chars by blast+
    have hv: "\<not> ISSPACE (hd v)" using nf by (simp add: first_byte_b64_rd rd_hd[OF v])
    have p0: "10 \<notin> set (t @ [58, 32])" "0 \<notin> set (t @ [58, 32])" using t0 by simp_all
    have g: "getline_scan (encode t ?val ?n) = (t @ [58, 32]) @ ?m"
      unfolding e getline_scan_prefix[OF p0] getline_scan_folded[OF v0(2) v0(1)] ..
    have sg: "str_getline (encode t ?val ?n) = Some (t @ [58, 32] @ ?m)"
      using h[of "[58, 32] @ (fold_text (Suc (length t)) v @ [10])"]
      by (simp add: str_getline_def g) (simp add: e)
    have m1: "?m \<noteq> []" and m2: "\<not> ISSPACE (hd ?m)" using mark_text_head[OF v hv] by simp_all
    have m3: "0 \<notin> set ?m"
      using set_mark_text[of "Suc (length t)" v] v0(1) by auto
    from decode_plain[OF t m1 m2 m3] filter_mark_text[OF v0(3), of "Suc (length t)"]
    have "str_parse_line (t @ [58, 32] @ ?m) = Inr (t, v, ?n)" by simp
    then show ?thesis using sg by blast
  next
    case True
    let ?len = "Suc (Suc (Suc (length t)))"
    let ?x = "b64_text v"
    let ?m = "mark_text ?len ?x"
    have c: "\<not> (length v mod 3 = 1 \<and> ?len \<le> 77 \<and> (?len + (4 * (length v div 3) + 3)) mod 76 = 1)"
    proof
      assume a: "length v mod 3 = 1 \<and> ?len \<le> 77 \<and> (?len + (4 * (length v div 3) + 3)) mod 76 = 1"
      have eq: "?len + (4 * (length v div 3) + 3) = length t + 4 * (length v div 3) + 6" by simp
      from a have "(?len + (4 * (length v div 3) + 3)) mod 76 = 1" by blast
      then have "(length t + 4 * (length v div 3) + 6) mod 76 = 1" unfolding eq .
      moreover have "length t \<le> 74" using a by simp
      ultimately show False using ns True a by blast
    qed
    have e: "encode t ?val ?n = (t @ [58, 58, 32]) @ (fold_text ?len ?x @ [10])"
      using encode_b64[OF True, of t] b64_fold[OF c] by (simp add: vb ct)
    have x0: "0 \<notin> set ?x" "10 \<notin> set ?x" "1 \<notin> set ?x" using b64_text_chars[of _ v] by blast+
    have p0: "10 \<notin> set (t @ [58, 58, 32])" "0 \<notin> set (t @ [58, 58, 32])" using t0 by simp_all
    have g: "getline_scan (encode t ?val ?n) = (t @ [58, 58, 32]) @ ?m"
      unfolding e getline_scan_prefix[OF p0] getline_scan_folded[OF x0(2) x0(1)] ..
    have sg: "str_getline (encode t ?val ?n) = Some (t @ [58, 58, 32] @ ?m)"
      using h[of "[58, 58, 32] @ (fold_text ?len ?x @ [10])"]
      by (simp add: str_getline_def g) (simp add: e)
    have xh: "?x \<noteq> []" "\<not> ISSPACE (hd ?x)" using b64_text_head[OF v] by simp_all
    have m1: "?m \<noteq> []" and m2: "\<not> ISSPACE (hd ?m)" using mark_text_head[OF xh] by simp_all
    have m3: "0 \<notin> set ?m" using set_mark_text[of ?len ?x] x0(1) by auto
    have m4: "filter (\<lambda>c. c \<noteq> 1) ?m = ?x" by (rule filter_mark_text[OF x0(3)])
    from decode_b64[OF t m1 m2 m3 m4]
    have "str_parse_line (t @ [58, 58, 32] @ ?m) = Inr (t, v, ?n)" .
    then show ?thesis using sg by blast
  qed
qed

theorem round_trip_witness:
  "(\<exists>line. str_getline (encode (bytes ''cn'') (bytes ''John Doe'') 8) = Some line
           \<and> str_parse_line line = Inr (bytes ''cn'', bytes ''John Doe'', 8))
   \<and> (\<exists>line. str_getline (encode (bytes ''cn'') [0, 255, 10, 32] 4) = Some line
           \<and> str_parse_line line = Inr (bytes ''cn'', [0, 255, 10, 32], 4))"
proof -
  have t: "valid_type (bytes ''cn'')" by (simp add: valid_type_def bytes_def ISSPACE_def)
  have l: "length (bytes ''cn'') = 2" "int (length (bytes ''John Doe'')) = 8"
    "length (bytes ''John Doe'') = 8" "bytes ''John Doe'' \<noteq> []"
    by (simp_all add: bytes_def)
  have p: "\<exists>line. str_getline (encode (bytes ''cn'') (bytes ''John Doe'') 8) = Some line
           \<and> str_parse_line line = Inr (bytes ''cn'', bytes ''John Doe'', 8)"
    using round_trip[OF t l(4), of "[]"] unfolding l by simp
  have q: "\<exists>line. str_getline (encode (bytes ''cn'') [0, 255, 10, 32] 4) = Some line
           \<and> str_parse_line line = Inr (bytes ''cn'', [0, 255, 10, 32], 4)"
    using round_trip[OF t, of "[0, 255, 10, 32]" "[]"] unfolding l by simp
  show ?thesis using p q by blast
qed
end
